theory Spec2Isabelle
  imports Main "HOL-Library.Word" "HOL-Library.Char_ord" "HOL-Library.List_Lexorder"
begin

section \<open>Data model\<close>

text \<open>
  The package keeps every variable behind a pointer (\<^verbatim>\<open>*Int\<close>, \<^verbatim>\<open>*Float\<close>, \<^verbatim>\<open>*String\<close>,
  \<^verbatim>\<open>*Map\<close>), and two handles to one variable alias each other. The model therefore has an
  explicit store: one table per struct type, indexed by address, and a counter for the next
  address \<^verbatim>\<open>new(T)\<close> hands out. Go strings are byte strings compared bytewise, which is the
  lexicographic order on \<^typ>\<open>string\<close> given by the imported orderings.
\<close>

type_synonym addr = nat

text \<open>
  \<^verbatim>\<open>type Func func() interface{}\<close>: what the function returns is a value of any Go type. The
  model has the shapes needed to run the package's own functions, and \<open>GoOpaque\<close> for a
  value of any other type, given by what \<^verbatim>\<open>json.Marshal\<close> returns for it (\<open>None\<close>: an error).
\<close>

datatype go_value =
    GoNil
  | GoBool bool
  | GoInt64 "64 word"
  | GoString string
  | GoStrings "string list"
  | GoFunc
  | GoChan
  | GoOpaque "string option"

text \<open>
  A value of the interface type \<^verbatim>\<open>Var\<close>: the nil interface, a pointer to one of the package's
  four structs, a \<^verbatim>\<open>Func\<close> (given by the value the function returns when called), or a value
  of a type declared elsewhere that has a \<^verbatim>\<open>String() string\<close> method (given by what that
  method returns and by what \<^verbatim>\<open>json.Marshal\<close> returns for it). A pointer always points to a
  struct; a nil pointer wrapped in the interface is not modelled.
\<close>

datatype Var =
    VNil
  | PInt addr
  | PFloat addr
  | PString addr
  | PMap addr
  | VFunc go_value
  | VOther string "string option"

text \<open>\<^verbatim>\<open>type KeyValue struct { Key string; Value Var }\<close>\<close>

type_synonym KeyValue = "string \<times> Var"

text \<open>
  \<^verbatim>\<open>type Map struct { m sync.Map; keysMu sync.RWMutex; keys []string }\<close> and
  \<^verbatim>\<open>type Bucket struct { vars sync.Map; varKeysMu sync.RWMutex; varKeys []string }\<close>.
  The locks have no content in a sequential run and are left out.
\<close>

record Map =
  Map_m :: "string \<rightharpoonup> Var"
  Map_keys :: "string list"

record Bucket =
  Bucket_vars :: "string \<rightharpoonup> Var"
  Bucket_varKeys :: "string list"

text \<open>
  \<^verbatim>\<open>Int{i int64}\<close>, \<^verbatim>\<open>Float{f uint64}\<close> (the bits of a float64) and
  \<^verbatim>\<open>String{s atomic.Value}\<close> (\<open>None\<close> until the first \<^verbatim>\<open>Store\<close>).
\<close>

record heap =
  ints :: "addr \<Rightarrow> 64 word"
  floats :: "addr \<Rightarrow> 64 word"
  strings :: "addr \<Rightarrow> string option"
  maps :: "addr \<Rightarrow> Map"
  buckets :: "addr \<Rightarrow> Bucket"
  free :: addr

definition zero_Map :: Map where
  "zero_Map = \<lparr>Map_m = Map.empty, Map_keys = []\<rparr>"

definition zero_Bucket :: Bucket where
  "zero_Bucket = \<lparr>Bucket_vars = Map.empty, Bucket_varKeys = []\<rparr>"

text \<open>The store of a program that has not allocated anything: Go memory is zeroed.\<close>

definition heap0 :: heap where
  "heap0 = \<lparr>ints = (\<lambda>_. 0), floats = (\<lambda>_. 0), strings = (\<lambda>_. None),
     maps = (\<lambda>_. zero_Map), buckets = (\<lambda>_. zero_Bucket), free = 0\<rparr>"

text \<open>A panic is a result; the state it leaves behind is returned beside it.\<close>

datatype panic =
    NilInterfaceConversion
  | WrongDynamicType
  | ReuseOfName string

datatype 'a result = Ok 'a | Panic panic

text \<open>
  Floating-point arithmetic and the two float formatters are outside the model and are
  parameters: \<open>float_add\<close> is the float64 sum on bit patterns, \<open>format_g\<close> is
  \<^verbatim>\<open>strconv.FormatFloat(x, 'g', -1, 64)\<close>, \<open>format_json\<close> is what \<^verbatim>\<open>encoding/json\<close> writes for
  a finite float64, and \<open>fmt_recovered\<close> is the text \<^verbatim>\<open>fmt\<close> prints in place of a \<^verbatim>\<open>String\<close>
  method that panicked.
\<close>

record golib =
  float_add :: "64 word \<Rightarrow> 64 word \<Rightarrow> 64 word"
  format_g :: "64 word \<Rightarrow> string"
  format_json :: "64 word \<Rightarrow> string"
  fmt_recovered :: "panic \<Rightarrow> string"

section \<open>The sync.Map operations the package uses\<close>

definition Load :: "(string \<rightharpoonup> Var) \<Rightarrow> string \<Rightarrow> Var \<times> bool" where
  "Load st key = (case st key of Some v \<Rightarrow> (v, True) | None \<Rightarrow> (VNil, False))"

definition LoadOrStore :: "(string \<rightharpoonup> Var) \<Rightarrow> string \<Rightarrow> Var \<Rightarrow> (Var \<times> bool) \<times> (string \<rightharpoonup> Var)" where
  "LoadOrStore st key v =
     (case st key of Some a \<Rightarrow> ((a, True), st) | None \<Rightarrow> ((v, False), st(key \<mapsto> v)))"

definition Store :: "(string \<rightharpoonup> Var) \<Rightarrow> string \<Rightarrow> Var \<Rightarrow> (string \<rightharpoonup> Var)" where
  "Store st key v = st(key \<mapsto> v)"

section \<open>sort.SearchStrings and sort.Strings\<close>

text \<open>
  \<^verbatim>\<open>sort.Search(n, f)\<close> is the binary search of the standard library, written out: it is run
  on whatever the slice holds, sorted or not.
\<close>

function Search_loop :: "nat \<Rightarrow> nat \<Rightarrow> (nat \<Rightarrow> bool) \<Rightarrow> nat" where
  "Search_loop i j f =
     (if i < j then
        (let h = (i + j) div 2 in
         if \<not> f h then Search_loop (h + 1) j f else Search_loop i h f)
      else i)"
  by pat_completeness auto
termination
  by (relation "measure (\<lambda>(i, j, f). j - i)") auto

declare Search_loop.simps [simp del]

definition SearchStrings :: "string list \<Rightarrow> string \<Rightarrow> nat" where
  "SearchStrings a x = Search_loop 0 (length a) (\<lambda>i. a ! i \<ge> x)"

text \<open>
  \<^verbatim>\<open>sort.Strings\<close> sorts in ascending order. Equal strings cannot be told apart, so the
  result does not depend on the sorting algorithm.
\<close>

definition sort_Strings :: "string list \<Rightarrow> string list" where
  "sort_Strings a = sort a"

section \<open>Int\<close>

definition new_Int :: "heap \<Rightarrow> addr \<times> heap" where
  "new_Int h = (free h, h\<lparr>ints := (ints h)(free h := 0), free := Suc (free h)\<rparr>)"

definition Int_Value :: "addr \<Rightarrow> heap \<Rightarrow> 64 word" where
  "Int_Value p h = ints h p"

definition Int_Add :: "addr \<Rightarrow> 64 word \<Rightarrow> heap \<Rightarrow> heap" where
  "Int_Add p delta h = h\<lparr>ints := (ints h)(p := ints h p + delta)\<rparr>"

definition Int_Increment :: "addr \<Rightarrow> heap \<Rightarrow> heap" where
  "Int_Increment p h = h\<lparr>ints := (ints h)(p := ints h p + 1)\<rparr>"

definition Int_Decrement :: "addr \<Rightarrow> heap \<Rightarrow> heap" where
  "Int_Decrement p h = h\<lparr>ints := (ints h)(p := ints h p + (- 1))\<rparr>"

definition Int_Set :: "addr \<Rightarrow> 64 word \<Rightarrow> heap \<Rightarrow> heap" where
  "Int_Set p v h = h\<lparr>ints := (ints h)(p := v)\<rparr>"

section \<open>Float\<close>

definition new_Float :: "heap \<Rightarrow> addr \<times> heap" where
  "new_Float h = (free h, h\<lparr>floats := (floats h)(free h := 0), free := Suc (free h)\<rparr>)"

definition Float_Value :: "addr \<Rightarrow> heap \<Rightarrow> 64 word" where
  "Float_Value p h = floats h p"

text \<open>
  The compare-and-swap of \<^verbatim>\<open>Float.Add\<close> succeeds at the first try when nothing runs beside
  it, so the loop body runs once.
\<close>

definition Float_Add :: "golib \<Rightarrow> addr \<Rightarrow> 64 word \<Rightarrow> heap \<Rightarrow> heap" where
  "Float_Add L p delta h =
     (let cur = floats h p; nxt = float_add L cur delta
      in h\<lparr>floats := (floats h)(p := nxt)\<rparr>)"

definition Float_Set :: "addr \<Rightarrow> 64 word \<Rightarrow> heap \<Rightarrow> heap" where
  "Float_Set p v h = h\<lparr>floats := (floats h)(p := v)\<rparr>"

section \<open>String\<close>

definition new_String :: "heap \<Rightarrow> addr \<times> heap" where
  "new_String h = (free h, h\<lparr>strings := (strings h)(free h := None), free := Suc (free h)\<rparr>)"

definition String_Value :: "addr \<Rightarrow> heap \<Rightarrow> string" where
  "String_Value p h = (case strings h p of Some s \<Rightarrow> s | None \<Rightarrow> [])"

definition String_Set :: "addr \<Rightarrow> string \<Rightarrow> heap \<Rightarrow> heap" where
  "String_Set p v h = h\<lparr>strings := (strings h)(p := Some v)\<rparr>"

section \<open>Map\<close>

definition new_Map :: "heap \<Rightarrow> addr \<times> heap" where
  "new_Map h = (free h, h\<lparr>maps := (maps h)(free h := zero_Map), free := Suc (free h)\<rparr>)"

text \<open>
  \<^verbatim>\<open>copy(a[i+1:], a[i:])\<close> inside one slice: the elements from \<open>i\<close> on move up by one place,
  as many as fit.
\<close>

definition copy_up :: "nat \<Rightarrow> 'a list \<Rightarrow> 'a list" where
  "copy_up i a = take (i + 1) a @ take (length a - (i + 1)) (drop i a)"

definition addKey_keys :: "string \<Rightarrow> string list \<Rightarrow> string list" where
  "addKey_keys key ks =
     (let i = SearchStrings ks key in
      if i \<ge> length ks then ks @ [key]
      else if ks ! i \<noteq> key then (copy_up i (ks @ [[]]))[i := key]
      else ks)"

definition Map_addKey :: "addr \<Rightarrow> string \<Rightarrow> heap \<Rightarrow> heap" where
  "Map_addKey p key h =
     h\<lparr>maps := (maps h)(p := (maps h p)\<lparr>Map_keys := addKey_keys key (Map_keys (maps h p))\<rparr>)\<rparr>"

definition Map_Init :: "addr \<Rightarrow> heap \<Rightarrow> heap" where
  "Map_Init p h = h\<lparr>maps := (maps h)(p := \<lparr>Map_m = Map.empty, Map_keys = []\<rparr>)\<rparr>"

definition Map_Get :: "addr \<Rightarrow> string \<Rightarrow> heap \<Rightarrow> Var" where
  "Map_Get p key h = fst (Load (Map_m (maps h p)) key)"

definition Map_store :: "addr \<Rightarrow> (string \<rightharpoonup> Var) \<Rightarrow> heap \<Rightarrow> heap" where
  "Map_store p st h = h\<lparr>maps := (maps h)(p := (maps h p)\<lparr>Map_m := st\<rparr>)\<rparr>"

definition Map_Set :: "addr \<Rightarrow> string \<Rightarrow> Var \<Rightarrow> heap \<Rightarrow> heap" where
  "Map_Set p key av h =
     (if \<not> snd (Load (Map_m (maps h p)) key) then
        (case LoadOrStore (Map_m (maps h p)) key av of
           ((_, dup), st) \<Rightarrow>
             if \<not> dup then Map_addKey p key (Map_store p st h)
             else Map_store p (Store st key av) (Map_store p st h))
      else Map_store p (Store (Map_m (maps h p)) key av) h)"

definition Map_Add :: "addr \<Rightarrow> string \<Rightarrow> 64 word \<Rightarrow> heap \<Rightarrow> heap" where
  "Map_Add p key delta h =
     (case Load (Map_m (maps h p)) key of
        (i, ok) \<Rightarrow>
          (case (if \<not> ok then
                   (case new_Int h of
                      (a, h1) \<Rightarrow>
                        (case LoadOrStore (Map_m (maps h1 p)) key (PInt a) of
                           ((i', dup), st) \<Rightarrow>
                             (i', if \<not> dup then Map_addKey p key (Map_store p st h1)
                                  else Map_store p st h1)))
                 else (i, h)) of
             (i2, h2) \<Rightarrow> (case i2 of PInt iv \<Rightarrow> Int_Add iv delta h2 | _ \<Rightarrow> h2)))"

definition Map_AddFloat :: "golib \<Rightarrow> addr \<Rightarrow> string \<Rightarrow> 64 word \<Rightarrow> heap \<Rightarrow> heap" where
  "Map_AddFloat L p key delta h =
     (case Load (Map_m (maps h p)) key of
        (i, ok) \<Rightarrow>
          (case (if \<not> ok then
                   (case new_Float h of
                      (a, h1) \<Rightarrow>
                        (case LoadOrStore (Map_m (maps h1 p)) key (PFloat a) of
                           ((i', dup), st) \<Rightarrow>
                             (i', if \<not> dup then Map_addKey p key (Map_store p st h1)
                                  else Map_store p st h1)))
                 else (i, h)) of
             (i2, h2) \<Rightarrow> (case i2 of PFloat iv \<Rightarrow> Float_Add L iv delta h2 | _ \<Rightarrow> h2)))"

definition Map_Delete :: "addr \<Rightarrow> string \<Rightarrow> heap \<Rightarrow> heap" where
  "Map_Delete p key h =
     (let ks = Map_keys (maps h p); i = SearchStrings ks key in
      if i < length ks \<and> key = ks ! i then
        h\<lparr>maps := (maps h)(p := \<lparr>Map_m = (Map_m (maps h p))(key := None),
                                  Map_keys = take i ks @ drop (i + 1) ks\<rparr>)\<rparr>
      else h)"

text \<open>
  \<^verbatim>\<open>Map.Do\<close>. The visitor is any function of the entry; what it does is a change of the
  store and of a state of its own. The \<^verbatim>\<open>range\<close> loop walks the key slice as it was when
  the loop started, and each value is loaded from the store as it is when its turn comes.
  \<^verbatim>\<open>i.(Var)\<close> has no second result: on the nil interface it panics.
\<close>

fun Map_Do_loop ::
  "(KeyValue \<Rightarrow> heap \<times> 's \<Rightarrow> heap \<times> 's) \<Rightarrow> addr \<Rightarrow> string list \<Rightarrow> heap \<times> 's
     \<Rightarrow> unit result \<times> (heap \<times> 's)" where
  "Map_Do_loop f p [] hs = (Ok (), hs)"
| "Map_Do_loop f p (k # ks) hs =
     (case Load (Map_m (maps (fst hs) p)) k of
        (i, _) \<Rightarrow>
          (case i of
             VNil \<Rightarrow> (Panic NilInterfaceConversion, hs)
           | _ \<Rightarrow> Map_Do_loop f p ks (f (k, i) hs)))"

definition Map_Do ::
  "(KeyValue \<Rightarrow> heap \<times> 's \<Rightarrow> heap \<times> 's) \<Rightarrow> addr \<Rightarrow> heap \<times> 's \<Rightarrow> unit result \<times> (heap \<times> 's)" where
  "Map_Do f p hs = Map_Do_loop f p (Map_keys (maps (fst hs) p)) hs"

section \<open>Bucket\<close>

definition Bucket_store :: "addr \<Rightarrow> (string \<rightharpoonup> Var) \<Rightarrow> heap \<Rightarrow> heap" where
  "Bucket_store b st h = h\<lparr>buckets := (buckets h)(b := (buckets h b)\<lparr>Bucket_vars := st\<rparr>)\<rparr>"

text \<open>
  \<^verbatim>\<open>log.Panicln\<close> writes the message to the log and panics with it; nothing after it runs.
\<close>

definition Bucket_Publish :: "addr \<Rightarrow> string \<Rightarrow> Var \<Rightarrow> heap \<Rightarrow> unit result \<times> heap" where
  "Bucket_Publish b name v h =
     (case LoadOrStore (Bucket_vars (buckets h b)) name v of
        ((_, dup), st) \<Rightarrow>
          (let h1 = Bucket_store b st h in
           if dup then (Panic (ReuseOfName name), h1)
           else (Ok (),
                 h1\<lparr>buckets := (buckets h1)(b := (buckets h1 b)
                      \<lparr>Bucket_varKeys := sort_Strings (Bucket_varKeys (buckets h1 b) @ [name])\<rparr>)\<rparr>)))"

definition Bucket_Get :: "addr \<Rightarrow> string \<Rightarrow> heap \<Rightarrow> Var" where
  "Bucket_Get b name h = fst (Load (Bucket_vars (buckets h b)) name)"

definition publish_new :: "addr \<Rightarrow> string \<Rightarrow> Var \<Rightarrow> addr \<Rightarrow> heap \<Rightarrow> addr result \<times> heap" where
  "publish_new b name v a h =
     (case Bucket_Publish b name v h of
        (Ok _, h') \<Rightarrow> (Ok a, h')
      | (Panic e, h') \<Rightarrow> (Panic e, h'))"

definition Bucket_NewMap :: "addr \<Rightarrow> string \<Rightarrow> heap \<Rightarrow> addr result \<times> heap" where
  "Bucket_NewMap b name h =
     (let v = Bucket_Get b name h in
      if v \<noteq> VNil then (case v of PMap a \<Rightarrow> (Ok a, h) | _ \<Rightarrow> (Panic WrongDynamicType, h))
      else (case new_Map h of (a, h1) \<Rightarrow> publish_new b name (PMap a) a h1))"

definition Bucket_NewString :: "addr \<Rightarrow> string \<Rightarrow> heap \<Rightarrow> addr result \<times> heap" where
  "Bucket_NewString b name h =
     (let v = Bucket_Get b name h in
      if v \<noteq> VNil then (case v of PString a \<Rightarrow> (Ok a, h) | _ \<Rightarrow> (Panic WrongDynamicType, h))
      else (case new_String h of (a, h1) \<Rightarrow> publish_new b name (PString a) a h1))"

definition Bucket_NewInt :: "addr \<Rightarrow> string \<Rightarrow> heap \<Rightarrow> addr result \<times> heap" where
  "Bucket_NewInt b name h =
     (let v = Bucket_Get b name h in
      if v \<noteq> VNil then (case v of PInt a \<Rightarrow> (Ok a, h) | _ \<Rightarrow> (Panic WrongDynamicType, h))
      else (case new_Int h of (a, h1) \<Rightarrow> publish_new b name (PInt a) a h1))"

text \<open>\<^verbatim>\<open>Bucket.NewFloat\<close> allocates before it looks the name up.\<close>

definition Bucket_NewFloat :: "addr \<Rightarrow> string \<Rightarrow> heap \<Rightarrow> addr result \<times> heap" where
  "Bucket_NewFloat b name h =
     (case new_Float h of
        (a, h1) \<Rightarrow>
          (let v = Bucket_Get b name h1 in
           if v \<noteq> VNil then (case v of PFloat a' \<Rightarrow> (Ok a', h1) | _ \<Rightarrow> (Panic WrongDynamicType, h1))
           else publish_new b name (PFloat a) a h1))"

fun Bucket_Do_loop ::
  "(KeyValue \<Rightarrow> heap \<times> 's \<Rightarrow> heap \<times> 's) \<Rightarrow> addr \<Rightarrow> string list \<Rightarrow> heap \<times> 's
     \<Rightarrow> unit result \<times> (heap \<times> 's)" where
  "Bucket_Do_loop f b [] hs = (Ok (), hs)"
| "Bucket_Do_loop f b (k # ks) hs =
     (case Load (Bucket_vars (buckets (fst hs) b)) k of
        (val, _) \<Rightarrow>
          (case val of
             VNil \<Rightarrow> (Panic NilInterfaceConversion, hs)
           | _ \<Rightarrow> Bucket_Do_loop f b ks (f (k, val) hs)))"

definition Bucket_Do ::
  "(KeyValue \<Rightarrow> heap \<times> 's \<Rightarrow> heap \<times> 's) \<Rightarrow> addr \<Rightarrow> heap \<times> 's \<Rightarrow> unit result \<times> (heap \<times> 's)" where
  "Bucket_Do f b hs = Bucket_Do_loop f b (Bucket_varKeys (buckets (fst hs) b)) hs"

section \<open>The invariant of the key index, and programs as sequences of calls\<close>

text \<open>
  The key slice holds exactly the keys of the store, in strictly ascending order (so without
  duplicates).
\<close>

definition Map_inv :: "Map \<Rightarrow> bool" where
  "Map_inv M \<longleftrightarrow> set (Map_keys M) = dom (Map_m M) \<and> sorted_wrt (<) (Map_keys M)"

definition Bucket_inv :: "Bucket \<Rightarrow> bool" where
  "Bucket_inv B \<longleftrightarrow> set (Bucket_varKeys B) = dom (Bucket_vars B) \<and> sorted_wrt (<) (Bucket_varKeys B)"

definition heap_inv :: "heap \<Rightarrow> bool" where
  "heap_inv h \<longleftrightarrow> (\<forall>p. Map_inv (maps h p)) \<and> (\<forall>b. Bucket_inv (buckets h b))"

datatype call =
    Call_Map_Set addr string Var
  | Call_Map_Add addr string "64 word"
  | Call_Map_AddFloat addr string "64 word"
  | Call_Map_Delete addr string
  | Call_Map_Init addr
  | Call_Publish addr string Var
  | Call_NewMap addr string
  | Call_NewString addr string
  | Call_NewInt addr string
  | Call_NewFloat addr string
  | Call_Int_Add addr "64 word"
  | Call_Int_Set addr "64 word"
  | Call_Float_Add addr "64 word"
  | Call_Float_Set addr "64 word"
  | Call_String_Set addr string

fun exec :: "golib \<Rightarrow> call \<Rightarrow> heap \<Rightarrow> heap" where
  "exec L (Call_Map_Set p key av) h = Map_Set p key av h"
| "exec L (Call_Map_Add p key delta) h = Map_Add p key delta h"
| "exec L (Call_Map_AddFloat p key delta) h = Map_AddFloat L p key delta h"
| "exec L (Call_Map_Delete p key) h = Map_Delete p key h"
| "exec L (Call_Map_Init p) h = Map_Init p h"
| "exec L (Call_Publish b name v) h = snd (Bucket_Publish b name v h)"
| "exec L (Call_NewMap b name) h = snd (Bucket_NewMap b name h)"
| "exec L (Call_NewString b name) h = snd (Bucket_NewString b name h)"
| "exec L (Call_NewInt b name) h = snd (Bucket_NewInt b name h)"
| "exec L (Call_NewFloat b name) h = snd (Bucket_NewFloat b name h)"
| "exec L (Call_Int_Add p d) h = Int_Add p d h"
| "exec L (Call_Int_Set p d) h = Int_Set p d h"
| "exec L (Call_Float_Add p d) h = Float_Add L p d h"
| "exec L (Call_Float_Set p d) h = Float_Set p d h"
| "exec L (Call_String_Set p s) h = String_Set p s h"

fun run :: "golib \<Rightarrow> call list \<Rightarrow> heap \<Rightarrow> heap" where
  "run L [] h = h"
| "run L (c # cs) h = run L cs (exec L c h)"


text \<open>
  An instance of the library parameters, for running examples in which floats and recovered
  panics play no part.
\<close>

definition lib0 :: golib where
  "lib0 = \<lparr>float_add = (\<lambda>a b. b), format_g = (\<lambda>_. ''0''), format_json = (\<lambda>_. ''0''),
     fmt_recovered = (\<lambda>_. ''%!s(PANIC)'')\<rparr>"

text \<open>The state after a visitor has been called on each entry of a list, in turn.\<close>

definition visits :: "(KeyValue \<Rightarrow> 'a \<Rightarrow> 'a) \<Rightarrow> 'a \<Rightarrow> KeyValue list \<Rightarrow> 'a" where
  "visits f a kvs = foldl (\<lambda>a kv. f kv a) a kvs"

text \<open>A small program, for examples: one map with two entries, one bucket with two names.\<close>

definition hW :: heap where
  "hW = run lib0 [Call_Map_Set 0 ''b'' (PInt 1), Call_Map_Set 0 ''a'' (PInt 2),
                  Call_Publish 0 ''y'' (PInt 1), Call_Publish 0 ''x'' (PMap 0)] heap0"

section \<open>Text: strconv, the %q verb and encoding/json\<close>

text \<open>
  Go strings are byte strings and so are the strings here. The two quoting functions are
  written byte by byte for ASCII, where they are exact. Bytes from 0x80 on are copied, which
  is what both functions do for the UTF-8 encoding of a printable character (other than
  U+2028 and U+2029 in JSON); an invalid sequence or an unprintable character gets an escape
  in Go that this model does not produce. For control characters \<^verbatim>\<open>encoding/json\<close> writes
  \<^verbatim>\<open>\u00XX\<close> except for newline, carriage return and tab; its recent releases also shorten
  backspace and form feed.
\<close>

definition dquote :: char where "dquote = CHR 0x22"
definition backslash :: char where "backslash = CHR 0x5C"
definition newline :: char where "newline = CHR 0x0A"

definition hex_digit :: "nat \<Rightarrow> char" where
  "hex_digit n = ''0123456789abcdef'' ! (n mod 16)"

definition hex2 :: "char \<Rightarrow> string" where
  "hex2 c = [hex_digit (of_char c div 16), hex_digit (of_char c mod 16)]"

fun decimal :: "nat \<Rightarrow> string" where
  "decimal n = (if n < 10 then [''0123456789'' ! n] else decimal (n div 10) @ [''0123456789'' ! (n mod 10)])"

declare decimal.simps [simp del]

text \<open>\<^verbatim>\<open>strconv.FormatInt(i, 10)\<close>\<close>

definition FormatInt :: "64 word \<Rightarrow> string" where
  "FormatInt i = (if sint i < 0 then CHR ''-'' # decimal (nat (- sint i)) else decimal (nat (sint i)))"

text \<open>\<^verbatim>\<open>strconv.Quote\<close>, which the verb \<^verbatim>\<open>%q\<close> applies to a string.\<close>

definition quote_char :: "char \<Rightarrow> string" where
  "quote_char c =
     (if c = dquote \<or> c = backslash then [backslash, c]
      else if c = CHR 0x07 then [backslash, CHR ''a'']
      else if c = CHR 0x08 then [backslash, CHR ''b'']
      else if c = CHR 0x0C then [backslash, CHR ''f'']
      else if c = CHR 0x0A then [backslash, CHR ''n'']
      else if c = CHR 0x0D then [backslash, CHR ''r'']
      else if c = CHR 0x09 then [backslash, CHR ''t'']
      else if c = CHR 0x0B then [backslash, CHR ''v'']
      else if (of_char c :: nat) < 0x20 \<or> c = CHR 0x7F then [backslash, CHR ''x''] @ hex2 c
      else [c])"

definition Quote :: "string \<Rightarrow> string" where
  "Quote s = dquote # concat (map quote_char s) @ [dquote]"

text \<open>A string as \<^verbatim>\<open>json.Marshal\<close> writes it (HTML escaping is on).\<close>

definition json_char :: "char \<Rightarrow> string" where
  "json_char c =
     (if c = dquote \<or> c = backslash then [backslash, c]
      else if c = CHR 0x0A then [backslash, CHR ''n'']
      else if c = CHR 0x0D then [backslash, CHR ''r'']
      else if c = CHR 0x09 then [backslash, CHR ''t'']
      else if (of_char c :: nat) < 0x20 \<or> c = CHR ''<'' \<or> c = CHR ''>'' \<or> c = CHR ''&''
        then [backslash, CHR ''u'', CHR ''0'', CHR ''0''] @ hex2 c
      else [c])"

definition json_string :: "string \<Rightarrow> string" where
  "json_string s = dquote # concat (map json_char s) @ [dquote]"

fun join :: "string \<Rightarrow> string list \<Rightarrow> string" where
  "join sep [] = []"
| "join sep [x] = x"
| "join sep (x # y # ys) = x @ sep @ join sep (y # ys)"

text \<open>
  \<^verbatim>\<open>json.Marshal\<close> of what a \<^verbatim>\<open>Func\<close> returns; \<open>None\<close> is an error (a function or a channel
  has no JSON encoding).
\<close>

fun json_Marshal :: "go_value \<Rightarrow> string option" where
  "json_Marshal GoNil = Some ''null''"
| "json_Marshal (GoBool b) = Some (if b then ''true'' else ''false'')"
| "json_Marshal (GoInt64 i) = Some (FormatInt i)"
| "json_Marshal (GoString s) = Some (json_string s)"
| "json_Marshal (GoStrings xs) = Some (''['' @ join '','' (map json_string xs) @ '']'')"
| "json_Marshal GoFunc = None"
| "json_Marshal GoChan = None"
| "json_Marshal (GoOpaque r) = r"

section \<open>String methods and MarshalJSON\<close>

definition Int_String :: "addr \<Rightarrow> heap \<Rightarrow> string" where
  "Int_String p h = FormatInt (ints h p)"

definition Int_MarshalJSON :: "addr \<Rightarrow> heap \<Rightarrow> string option" where
  "Int_MarshalJSON p h = json_Marshal (GoInt64 (Int_Value p h))"

definition Float_String :: "golib \<Rightarrow> addr \<Rightarrow> heap \<Rightarrow> string" where
  "Float_String L p h = format_g L (floats h p)"

text \<open>
  \<^verbatim>\<open>json.Marshal\<close> of a float64 is an error for an infinity or a NaN, that is when the eleven
  exponent bits are all set.
\<close>

definition inf_or_nan :: "64 word \<Rightarrow> bool" where
  "inf_or_nan w \<longleftrightarrow> take_bit 11 (drop_bit 52 w) = (0x7FF :: 64 word)"

definition Float_MarshalJSON :: "golib \<Rightarrow> addr \<Rightarrow> heap \<Rightarrow> string option" where
  "Float_MarshalJSON L p h =
     (if inf_or_nan (Float_Value p h) then None else Some (format_json L (Float_Value p h)))"

definition String_String :: "addr \<Rightarrow> heap \<Rightarrow> string" where
  "String_String p h =
     (case json_Marshal (GoString (String_Value p h)) of Some b \<Rightarrow> b | None \<Rightarrow> [])"

definition String_MarshalJSON :: "addr \<Rightarrow> heap \<Rightarrow> string option" where
  "String_MarshalJSON p h = json_Marshal (GoString (String_Value p h))"

definition Func_Value :: "go_value \<Rightarrow> go_value" where
  "Func_Value f = f"

definition Func_String :: "go_value \<Rightarrow> string" where
  "Func_String f = (case json_Marshal (Func_Value f) of Some v \<Rightarrow> v | None \<Rightarrow> [])"

text \<open>
  \<^verbatim>\<open>json.Marshal(kv.Value)\<close> inside \<^verbatim>\<open>Map.String\<close>: \<^verbatim>\<open>*Int\<close>, \<^verbatim>\<open>*Float\<close> and \<^verbatim>\<open>*String\<close> have a
  \<^verbatim>\<open>MarshalJSON\<close> method; \<^verbatim>\<open>*Map\<close> has none and no exported field, so it is written as an empty
  object; a \<^verbatim>\<open>Func\<close> is a function, which is an error.
\<close>

definition json_Marshal_Var :: "golib \<Rightarrow> heap \<Rightarrow> Var \<Rightarrow> string option" where
  "json_Marshal_Var L h v =
     (case v of
        VNil \<Rightarrow> Some ''null''
      | PInt a \<Rightarrow> Int_MarshalJSON a h
      | PFloat a \<Rightarrow> Float_MarshalJSON L a h
      | PString a \<Rightarrow> String_MarshalJSON a h
      | PMap a \<Rightarrow> Some ''{}''
      | VFunc f \<Rightarrow> None
      | VOther s r \<Rightarrow> r)"

text \<open>
  The visitor of \<^verbatim>\<open>Map.String\<close>: its state is the builder and the flag \<^verbatim>\<open>first\<close>. The separator
  is written before the value is marshalled.
\<close>

definition Map_String_visit :: "golib \<Rightarrow> KeyValue \<Rightarrow> heap \<times> (string \<times> bool) \<Rightarrow> heap \<times> (string \<times> bool)" where
  "Map_String_visit L kv hs =
     (case hs of (h, (b, first)) \<Rightarrow>
        (let b1 = (if \<not> first then b @ '', '' else b) in
         case json_Marshal_Var L h (snd kv) of
           None \<Rightarrow> (h, (b1, first))
         | Some val \<Rightarrow> (h, (b1 @ Quote (fst kv) @ '': '' @ val, False))))"

definition Map_String :: "golib \<Rightarrow> addr \<Rightarrow> heap \<Rightarrow> string result" where
  "Map_String L p h =
     (case Map_Do (Map_String_visit L) p (h, (''{'', True)) of
        (Ok _, (_, (b, _))) \<Rightarrow> Ok (b @ ''}'')
      | (Panic e, _) \<Rightarrow> Panic e)"

text \<open>
  The verb \<^verbatim>\<open>%s\<close> on a \<^verbatim>\<open>Var\<close> calls its \<^verbatim>\<open>String\<close> method; \<^verbatim>\<open>fmt\<close> recovers a panic of that
  method and prints a note in its place.
\<close>

definition Var_String :: "golib \<Rightarrow> heap \<Rightarrow> Var \<Rightarrow> string result" where
  "Var_String L h v =
     (case v of
        VNil \<Rightarrow> Panic NilInterfaceConversion
      | PInt a \<Rightarrow> Ok (Int_String a h)
      | PFloat a \<Rightarrow> Ok (Float_String L a h)
      | PString a \<Rightarrow> Ok (String_String a h)
      | PMap a \<Rightarrow> Map_String L a h
      | VFunc f \<Rightarrow> Ok (Func_String f)
      | VOther s r \<Rightarrow> Ok s)"

definition fmt_s :: "golib \<Rightarrow> heap \<Rightarrow> Var \<Rightarrow> string" where
  "fmt_s L h v =
     (case v of
        VNil \<Rightarrow> ''%!s(<nil>)''
      | _ \<Rightarrow> (case Var_String L h v of Ok s \<Rightarrow> s | Panic e \<Rightarrow> fmt_recovered L e))"

section \<open>The package-level functions and the HTTP handler\<close>

text \<open>
  \<^verbatim>\<open>var Default = &Bucket{}\<close>: the package's own bucket has an address of its own. The
  package-level functions hand their arguments to it.
\<close>

definition Default :: addr where
  "Default = 0"

definition Publish :: "string \<Rightarrow> Var \<Rightarrow> heap \<Rightarrow> unit result \<times> heap" where
  "Publish name v h = Bucket_Publish Default name v h"

definition Get :: "string \<Rightarrow> heap \<Rightarrow> Var" where
  "Get name h = Bucket_Get Default name h"

definition NewMap :: "string \<Rightarrow> heap \<Rightarrow> addr result \<times> heap" where
  "NewMap name h = Bucket_NewMap Default name h"

definition NewString :: "string \<Rightarrow> heap \<Rightarrow> addr result \<times> heap" where
  "NewString name h = Bucket_NewString Default name h"

definition NewInt :: "string \<Rightarrow> heap \<Rightarrow> addr result \<times> heap" where
  "NewInt name h = Bucket_NewInt Default name h"

definition NewFloat :: "string \<Rightarrow> heap \<Rightarrow> addr result \<times> heap" where
  "NewFloat name h = Bucket_NewFloat Default name h"

definition Do ::
  "(KeyValue \<Rightarrow> heap \<times> 's \<Rightarrow> heap \<times> 's) \<Rightarrow> heap \<times> 's \<Rightarrow> unit result \<times> (heap \<times> 's)" where
  "Do f hs = Bucket_Do f Default hs"

text \<open>
  The visitor of \<^verbatim>\<open>expvarHandler\<close>: its state is what was written to the response so far and
  the flag \<^verbatim>\<open>first\<close>.
\<close>

definition expvarHandler_visit :: "golib \<Rightarrow> KeyValue \<Rightarrow> heap \<times> (string \<times> bool) \<Rightarrow> heap \<times> (string \<times> bool)" where
  "expvarHandler_visit L kv hs =
     (case hs of (h, (w, first)) \<Rightarrow>
        (let w1 = (if \<not> first then w @ [CHR '','', newline] else w) in
         (h, (w1 @ Quote (fst kv) @ '': '' @ fmt_s L h (snd kv), False))))"

text \<open>The body \<^verbatim>\<open>expvarHandler\<close> writes to the response.\<close>

definition expvarHandler :: "golib \<Rightarrow> heap \<Rightarrow> string result" where
  "expvarHandler L h =
     (case Do (expvarHandler_visit L) (h, ([CHR ''{'', newline], True)) of
        (Ok _, (_, (w, _))) \<Rightarrow> Ok (w @ [newline, CHR ''}'', newline])
      | (Panic e, _) \<Rightarrow> Panic e)"

section \<open>Well-formed JSON\<close>

text \<open>
  A recogniser for the JSON grammar (RFC 8259): a scanner that cuts the text into tokens,
  character by character, and a parser that runs the tokens against a stack of open arrays
  and objects. It accepts what \<^verbatim>\<open>json.Valid\<close> accepts.
\<close>

datatype token = LBrace | RBrace | LBracket | RBracket | Colon | Comma | TString | TNumber | TLit

datatype lstate =
    Idle
  | InStr
  | InEsc
  | InHex nat
  | InLit string
  | NumMinus
  | NumZero
  | NumInt
  | NumDot
  | NumFrac
  | NumE
  | NumESign
  | NumExp

definition is_ws :: "char \<Rightarrow> bool" where
  "is_ws c \<longleftrightarrow> c = CHR '' '' \<or> c = CHR 0x09 \<or> c = CHR 0x0A \<or> c = CHR 0x0D"

definition is_digit :: "char \<Rightarrow> bool" where
  "is_digit c \<longleftrightarrow> c \<in> set ''0123456789''"

definition is_hex :: "char \<Rightarrow> bool" where
  "is_hex c \<longleftrightarrow> c \<in> set ''0123456789abcdefABCDEF''"

text \<open>A character that starts a token, or white space.\<close>

definition idle_step :: "char \<Rightarrow> (token list \<times> lstate) option" where
  "idle_step c =
     (if is_ws c then Some ([], Idle)
      else if c = CHR ''{'' then Some ([LBrace], Idle)
      else if c = CHR ''}'' then Some ([RBrace], Idle)
      else if c = CHR ''['' then Some ([LBracket], Idle)
      else if c = CHR '']'' then Some ([RBracket], Idle)
      else if c = CHR '':'' then Some ([Colon], Idle)
      else if c = CHR '','' then Some ([Comma], Idle)
      else if c = dquote then Some ([], InStr)
      else if c = CHR ''-'' then Some ([], NumMinus)
      else if c = CHR ''0'' then Some ([], NumZero)
      else if is_digit c then Some ([], NumInt)
      else if c = CHR ''t'' then Some ([], InLit ''rue'')
      else if c = CHR ''f'' then Some ([], InLit ''alse'')
      else if c = CHR ''n'' then Some ([], InLit ''ull'')
      else None)"

text \<open>A number has ended at the character before \<open>c\<close>.\<close>

definition end_number :: "char \<Rightarrow> (token list \<times> lstate) option" where
  "end_number c = (case idle_step c of None \<Rightarrow> None | Some (ts, st) \<Rightarrow> Some (TNumber # ts, st))"

definition is_exp :: "char \<Rightarrow> bool" where
  "is_exp c \<longleftrightarrow> c = CHR ''e'' \<or> c = CHR ''E''"

fun lstep :: "lstate \<Rightarrow> char \<Rightarrow> (token list \<times> lstate) option" where
  "lstep Idle c = idle_step c"
| "lstep InStr c =
     (if c = dquote then Some ([TString], Idle)
      else if c = backslash then Some ([], InEsc)
      else if (of_char c :: nat) < 0x20 then None
      else Some ([], InStr))"
| "lstep InEsc c =
     (if c = dquote \<or> c = backslash \<or> c \<in> set ''/bfnrt'' then Some ([], InStr)
      else if c = CHR ''u'' then Some ([], InHex 4)
      else None)"
| "lstep (InHex n) c =
     (if is_hex c then Some ([], if n \<le> 1 then InStr else InHex (n - 1)) else None)"
| "lstep (InLit r) c =
     (case r of
        [] \<Rightarrow> None
      | x # xs \<Rightarrow> if c = x then (if xs = [] then Some ([TLit], Idle) else Some ([], InLit xs))
                  else None)"
| "lstep NumMinus c =
     (if c = CHR ''0'' then Some ([], NumZero)
      else if is_digit c then Some ([], NumInt)
      else None)"
| "lstep NumZero c =
     (if c = CHR ''.'' then Some ([], NumDot)
      else if is_exp c then Some ([], NumE)
      else end_number c)"
| "lstep NumInt c =
     (if is_digit c then Some ([], NumInt)
      else if c = CHR ''.'' then Some ([], NumDot)
      else if is_exp c then Some ([], NumE)
      else end_number c)"
| "lstep NumDot c = (if is_digit c then Some ([], NumFrac) else None)"
| "lstep NumFrac c =
     (if is_digit c then Some ([], NumFrac)
      else if is_exp c then Some ([], NumE)
      else end_number c)"
| "lstep NumE c =
     (if c = CHR ''+'' \<or> c = CHR ''-'' then Some ([], NumESign)
      else if is_digit c then Some ([], NumExp)
      else None)"
| "lstep NumESign c = (if is_digit c then Some ([], NumExp) else None)"
| "lstep NumExp c = (if is_digit c then Some ([], NumExp) else end_number c)"

text \<open>At the end of the text: nothing is open, or a complete number ends here.\<close>

fun lfinal :: "lstate \<Rightarrow> token list option" where
  "lfinal Idle = Some []"
| "lfinal NumZero = Some [TNumber]"
| "lfinal NumInt = Some [TNumber]"
| "lfinal NumFrac = Some [TNumber]"
| "lfinal NumExp = Some [TNumber]"
| "lfinal _ = None"

fun lex :: "lstate \<Rightarrow> string \<Rightarrow> token list option" where
  "lex st [] = lfinal st"
| "lex st (c # cs) =
     (case lstep st c of
        None \<Rightarrow> None
      | Some (ts, st') \<Rightarrow> (case lex st' cs of None \<Rightarrow> None | Some ts' \<Rightarrow> Some (ts @ ts')))"

datatype container = Obj | Arr

datatype pmode = PValue | PObjStart | PKey | PColon | PArrStart | PAfter

definition value_step :: "container list \<Rightarrow> token \<Rightarrow> (pmode \<times> container list) option" where
  "value_step st t =
     (case t of
        TString \<Rightarrow> Some (PAfter, st)
      | TNumber \<Rightarrow> Some (PAfter, st)
      | TLit \<Rightarrow> Some (PAfter, st)
      | LBrace \<Rightarrow> Some (PObjStart, Obj # st)
      | LBracket \<Rightarrow> Some (PArrStart, Arr # st)
      | _ \<Rightarrow> None)"

fun pstep :: "pmode \<times> container list \<Rightarrow> token \<Rightarrow> (pmode \<times> container list) option" where
  "pstep (PValue, st) t = value_step st t"
| "pstep (PArrStart, st) t =
     (if t = RBracket then (case st of Arr # st' \<Rightarrow> Some (PAfter, st') | _ \<Rightarrow> None)
      else value_step st t)"
| "pstep (PObjStart, st) t =
     (if t = RBrace then (case st of Obj # st' \<Rightarrow> Some (PAfter, st') | _ \<Rightarrow> None)
      else if t = TString then Some (PColon, st)
      else None)"
| "pstep (PKey, st) t = (if t = TString then Some (PColon, st) else None)"
| "pstep (PColon, st) t = (if t = Colon then Some (PValue, st) else None)"
| "pstep (PAfter, st) t =
     (case st of
        [] \<Rightarrow> None
      | Obj # st' \<Rightarrow>
          (if t = Comma then Some (PKey, st) else if t = RBrace then Some (PAfter, st') else None)
      | Arr # st' \<Rightarrow>
          (if t = Comma then Some (PValue, st) else if t = RBracket then Some (PAfter, st') else None))"

fun parse :: "pmode \<times> container list \<Rightarrow> token list \<Rightarrow> (pmode \<times> container list) option" where
  "parse ps [] = Some ps"
| "parse ps (t # ts) = (case pstep ps t of None \<Rightarrow> None | Some ps' \<Rightarrow> parse ps' ts)"

definition json_valid :: "string \<Rightarrow> bool" where
  "json_valid s =
     (case lex Idle s of
        None \<Rightarrow> False
      | Some ts \<Rightarrow> parse (PValue, []) ts = Some (PAfter, []))"

section \<open>Example states\<close>

text \<open>The text \<^verbatim>\<open>{"a": 5, "b": "x"}\<close>.\<close>

definition text_a5_bx :: string where
  "text_a5_bx = [CHR ''{'', dquote, CHR ''a'', dquote] @ '': 5, '' @
                [dquote, CHR ''b'', dquote] @ '': '' @ [dquote, CHR ''x'', dquote] @ ''}''"

text \<open>A state with an \<open>Int\<close> of value 5 and a \<open>String\<close> of value \<^verbatim>\<open>x\<close>, and no map entries yet.\<close>

definition hX :: heap where
  "hX = run lib0 [Call_Int_Set 0 5, Call_String_Set 0 ''x''] heap0"

text \<open>
  A map built by \<^verbatim>\<open>m.Add("a", 1)\<close> and \<^verbatim>\<open>m.Set("b", Func(...))\<close>, and a map and a bucket
  that were given the nil interface under the key \<^verbatim>\<open>k\<close>.
\<close>

definition hC :: heap where
  "hC = run lib0 [Call_Map_Add 0 ''a'' 1, Call_Map_Set 0 ''b'' (VFunc GoNil)] heap0"

definition hN :: heap where
  "hN = run lib0 [Call_Map_Set 0 ''k'' VNil, Call_Publish 0 ''k'' VNil] heap0"

text \<open>The package's bucket with a \<^verbatim>\<open>Func\<close> that returns a channel under \<^verbatim>\<open>bad\<close> and an \<open>Int\<close> under \<^verbatim>\<open>n\<close>.\<close>

definition hF :: heap where
  "hF = run lib0 [Call_Publish Default ''bad'' (VFunc GoChan), Call_NewInt Default ''n''] heap0"

text \<open>
  A map and a bucket with three keys each, the middle one bound to the nil interface.
\<close>

definition hD :: heap where
  "hD = run lib0 [Call_Map_Add 0 ''a'' 1, Call_Map_Set 0 ''c'' VNil, Call_Map_Add 0 ''d'' 1,
                  Call_NewInt 0 ''a'', Call_Publish 0 ''c'' VNil, Call_NewInt 0 ''d''] heap0"

section \<open>Devices for reasoning about the recogniser and the handler\<close>

text \<open>The scanner run over a piece of text that is not the end of the input.\<close>

fun lsteps :: "lstate \<Rightarrow> string \<Rightarrow> (token list \<times> lstate) option" where
  "lsteps st [] = Some ([], st)"
| "lsteps st (c # cs) =
     (case lstep st c of
        None \<Rightarrow> None
      | Some (ts, st') \<Rightarrow>
          (case lsteps st' cs of None \<Rightarrow> None | Some (ts', st'') \<Rightarrow> Some (ts @ ts', st'')))"

text \<open>Inside a literal the scanner never waits for a line feed.\<close>

definition lit_ok :: "lstate \<Rightarrow> bool" where
  "lit_ok st = (case st of InLit r \<Rightarrow> newline \<notin> set r | _ \<Rightarrow> True)"

text \<open>What the handler writes for a list of entries, the first of which may be the first of all.\<close>

fun handler_entries :: "golib \<Rightarrow> heap \<Rightarrow> bool \<Rightarrow> KeyValue list \<Rightarrow> string" where
  "handler_entries L h first [] = []"
| "handler_entries L h first (kv # kvs) =
     (if first then [] else [CHR '','', newline]) @ Quote (fst kv) @ '': '' @ fmt_s L h (snd kv) @
     handler_entries L h False kvs"

section \<open>The key index\<close>

text \<open>On a monotone predicate the binary search returns the first index where it holds.\<close>

lemma Search_loop_spec:
  assumes "\<And>a b. i \<le> a \<Longrightarrow> a \<le> b \<Longrightarrow> b < j \<Longrightarrow> f a \<Longrightarrow> f b" and "i \<le> j"
  shows "i \<le> Search_loop i j f \<and> Search_loop i j f \<le> j \<and>
         (\<forall>k. i \<le> k \<and> k < Search_loop i j f \<longrightarrow> \<not> f k) \<and>
         (\<forall>k. Search_loop i j f \<le> k \<and> k < j \<longrightarrow> f k)"
  using assms
proof (induction i j f rule: Search_loop.induct)
  case (1 i j f)
  note mono = "1.prems"(1)
  show ?case
  proof (cases "i < j")
    case False
    then have eq: "Search_loop i j f = i" by (subst Search_loop.simps) simp
    from False "1.prems"(2) have "i = j" by linarith
    then show ?thesis unfolding eq by auto
  next
    case True
    define h where "h = (i + j) div 2"
    have hb: "i \<le> h" "h < j" using True unfolding h_def by linarith+
    show ?thesis
    proof (cases "f h")
      case False
      have mono': "\<And>a b. h + 1 \<le> a \<Longrightarrow> a \<le> b \<Longrightarrow> b < j \<Longrightarrow> f a \<Longrightarrow> f b"
      proof -
        fix a b assume "h + 1 \<le> a" "a \<le> b" "b < j" "f a"
        moreover have "i \<le> a" using \<open>h + 1 \<le> a\<close> hb by linarith
        ultimately show "f b" by (rule_tac mono[of a b])
      qed
      have le: "h + 1 \<le> j" using hb by linarith
      have IH: "h + 1 \<le> Search_loop (h + 1) j f \<and> Search_loop (h + 1) j f \<le> j \<and>
         (\<forall>k. h + 1 \<le> k \<and> k < Search_loop (h + 1) j f \<longrightarrow> \<not> f k) \<and>
         (\<forall>k. Search_loop (h + 1) j f \<le> k \<and> k < j \<longrightarrow> f k)"
        by (rule "1.IH"(1)[OF True h_def False mono' le])
      have low: "\<not> f k" if "i \<le> k" "k \<le> h" for k
      proof
        assume "f k"
        then have "f h" using mono[of k h] that hb by blast
        with False show False by blast
      qed
      have eq: "Search_loop i j f = Search_loop (h + 1) j f"
        using True False by (subst Search_loop.simps) (simp add: h_def Let_def)
      have nf: "\<not> f k" if "i \<le> k" "k < Search_loop (h + 1) j f" for k
      proof (cases "k \<le> h")
        case True then show ?thesis using low that by blast
      next
        case False
        then have "h + 1 \<le> k" by linarith
        then show ?thesis using IH that by blast
      qed
      have "i \<le> Search_loop (h + 1) j f" using IH hb by linarith
      then show ?thesis unfolding eq using IH nf by blast
    next
      case fh: True
      have mono': "\<And>a b. i \<le> a \<Longrightarrow> a \<le> b \<Longrightarrow> b < h \<Longrightarrow> f a \<Longrightarrow> f b"
      proof -
        fix a b assume "i \<le> a" "a \<le> b" "b < h" "f a"
        moreover have "b < j" using \<open>b < h\<close> hb by linarith
        ultimately show "f b" by (rule_tac mono[of a b])
      qed
      have nfh: "\<not> \<not> f h" using fh by blast
      have IH: "i \<le> Search_loop i h f \<and> Search_loop i h f \<le> h \<and>
         (\<forall>k. i \<le> k \<and> k < Search_loop i h f \<longrightarrow> \<not> f k) \<and>
         (\<forall>k. Search_loop i h f \<le> k \<and> k < h \<longrightarrow> f k)"
        by (rule "1.IH"(2)[OF True h_def nfh mono' hb(1)])
      have up: "f k" if "h \<le> k" "k < j" for k
        using mono[of h k] that hb fh by blast
      have eq: "Search_loop i j f = Search_loop i h f"
        using True fh by (subst Search_loop.simps) (simp add: h_def Let_def)
      have ff: "f k" if "Search_loop i h f \<le> k" "k < j" for k
      proof (cases "k < h")
        case True then show ?thesis using IH that by blast
      next
        case False
        then have "h \<le> k" by linarith
        then show ?thesis using up that by blast
      qed
      have "Search_loop i h f \<le> j" using IH hb by linarith
      then show ?thesis unfolding eq using IH ff by blast
    qed
  qed
qed

lemma SearchStrings_sorted:
  assumes "sorted ks"
  shows "SearchStrings ks x \<le> length ks \<and>
         (\<forall>k < SearchStrings ks x. ks ! k < x) \<and>
         (\<forall>k. SearchStrings ks x \<le> k \<and> k < length ks \<longrightarrow> x \<le> ks ! k)"
proof -
  let ?f = "\<lambda>i. x \<le> ks ! i"
  have mono: "\<And>a b. 0 \<le> a \<Longrightarrow> a \<le> b \<Longrightarrow> b < length ks \<Longrightarrow> ?f a \<Longrightarrow> ?f b"
  proof -
    fix a b :: nat assume "a \<le> b" "b < length ks" "x \<le> ks ! a"
    moreover have "ks ! a \<le> ks ! b" using assms \<open>a \<le> b\<close> \<open>b < length ks\<close> by (rule sorted_nth_mono)
    ultimately show "x \<le> ks ! b" by (rule_tac order_trans)
  qed
  have "0 \<le> length ks" by simp
  from Search_loop_spec[of 0 "length ks" ?f, OF mono this]
  show ?thesis unfolding SearchStrings_def by (auto simp: not_le)
qed

lemma take_SearchStrings:
  assumes "sorted ks"
  shows "\<forall>y \<in> set (take (SearchStrings ks x) ks). y < x"
    and "\<forall>y \<in> set (drop (SearchStrings ks x) ks). x \<le> y"
proof -
  note S = SearchStrings_sorted[OF assms, of x]
  show "\<forall>y \<in> set (take (SearchStrings ks x) ks). y < x"
    using S by (auto simp: in_set_conv_nth)
  show "\<forall>y \<in> set (drop (SearchStrings ks x) ks). x \<le> y"
    using S by (auto simp: in_set_conv_nth)
qed

lemma copy_up_insert:
  assumes "i < length ks"
  shows "(copy_up i (ks @ [z]))[i := key] = take i ks @ key # drop i ks"
proof -
  have "copy_up i (ks @ [z]) = take (Suc i) ks @ drop i ks"
    using assms by (simp add: copy_up_def)
  also have "take (Suc i) ks = take i ks @ [ks ! i]"
    using assms by (simp add: take_Suc_conv_app_nth)
  finally show ?thesis
    using assms by (simp add: list_update_append)
qed

lemma addKey_keys_insert:
  assumes "sorted_wrt (<) ks"
  shows "addKey_keys key ks =
           (if key \<in> set ks then ks
            else take (SearchStrings ks key) ks @ key # drop (SearchStrings ks key) ks)"
proof -
  have srt: "sorted ks" using assms by (simp add: strict_sorted_iff)
  define i where "i = SearchStrings ks key"
  note S = SearchStrings_sorted[OF srt, of key, folded i_def]
  note T = take_SearchStrings[OF srt, of key, folded i_def]
  show ?thesis
  proof (cases "i \<ge> length ks")
    case True
    then have "key \<notin> set ks" using T(1) by auto
    then show ?thesis using True by (simp add: addKey_keys_def i_def[symmetric])
  next
    case False
    then have il: "i < length ks" by simp
    show ?thesis
    proof (cases "ks ! i = key")
      case True
      then have "key \<in> set ks" using il by auto
      then show ?thesis using True il by (simp add: addKey_keys_def i_def[symmetric])
    next
      case ne: False
      have "key \<notin> set ks"
      proof
        assume "key \<in> set ks"
        then have "key \<in> set (take i ks) \<or> key \<in> set (drop i ks)"
          by (metis append_take_drop_id set_append Un_iff)
        then have "key \<in> set (drop i ks)" using T(1) by auto
        then obtain n where n: "n < length ks - i" "ks ! (i + n) = key"
          by (auto simp: in_set_conv_nth)
        have "n \<noteq> 0" using n ne by (cases n) auto
        then have "i < i + n" "i + n < length ks" using n by linarith+
        then have "ks ! i < ks ! (i + n)"
          by (rule sorted_wrt_nth_less[OF assms])
        moreover have "key \<le> ks ! i" using S il by auto
        ultimately show False using n by simp
      qed
      then show ?thesis using ne il
        by (simp add: addKey_keys_def i_def[symmetric] copy_up_insert)
    qed
  qed
qed

lemma addKey_keys_set: "sorted_wrt (<) ks \<Longrightarrow> set (addKey_keys key ks) = insert key (set ks)"
proof -
  assume a: "sorted_wrt (<) ks"
  have "set (take (SearchStrings ks key) ks @ key # drop (SearchStrings ks key) ks) = insert key (set ks)"
    by (metis append_take_drop_id list.simps(15) set_append Un_insert_right)
  then show ?thesis using a by (auto simp: addKey_keys_insert)
qed

lemma addKey_keys_sorted: "sorted_wrt (<) ks \<Longrightarrow> sorted_wrt (<) (addKey_keys key ks)"
proof -
  assume a: "sorted_wrt (<) ks"
  have srt: "sorted ks" using a by (simp add: strict_sorted_iff)
  define i where "i = SearchStrings ks key"
  note T = take_SearchStrings[OF srt, of key, folded i_def]
  have parts: "sorted_wrt (<) (take i ks)" "sorted_wrt (<) (drop i ks)"
    "\<forall>x\<in>set (take i ks). \<forall>y\<in>set (drop i ks). x < y"
    using a by (metis append_take_drop_id sorted_wrt_append)+
  show ?thesis
  proof (cases "key \<in> set ks")
    case True then show ?thesis using a by (simp add: addKey_keys_insert)
  next
    case False
    have "\<forall>y \<in> set (drop i ks). key < y"
    proof
      fix y assume y: "y \<in> set (drop i ks)"
      then have "key \<le> y" using T(2) by blast
      moreover have "y \<in> set ks" using y by (rule in_set_dropD)
      ultimately show "key < y" using False by (metis order_le_imp_less_or_eq)
    qed
    then have "sorted_wrt (<) (take i ks @ key # drop i ks)"
      using parts T(1) by (auto simp: sorted_wrt_append)
    then show ?thesis using a False by (simp add: addKey_keys_insert i_def)
  qed
qed

lemma delete_keys:
  fixes ks :: "string list"
  assumes "sorted_wrt (<) ks" "i < length ks"
  shows "set (take i ks @ drop (i + 1) ks) = set ks - {ks ! i}"
    and "sorted_wrt (<) (take i ks @ drop (i + 1) ks)"
proof -
  define xs where "xs = take i ks"
  define ys where "ys = drop (i + 1) ks"
  define k where "k = ks ! i"
  have ks: "ks = xs @ k # ys"
    using assms(2) unfolding xs_def ys_def k_def by (simp add: id_take_nth_drop)
  have s: "sorted_wrt (<) (xs @ k # ys)" by (subst ks[symmetric]) (rule assms(1))
  have d: "distinct (xs @ k # ys)" using s strict_sorted_iff by blast
  have ni: "k \<notin> set (xs @ ys)" using d by simp
  have "set ks = set (xs @ k # ys)" using ks by (rule arg_cong)
  then have "set ks = insert k (set (xs @ ys))" by simp
  then have "set (xs @ ys) = set ks - {k}" using ni by blast
  then show "set (take i ks @ drop (i + 1) ks) = set ks - {ks ! i}"
    unfolding xs_def ys_def k_def .
  have "sorted_wrt (<) (xs @ ys)" using s by (simp add: sorted_wrt_append)
  then show "sorted_wrt (<) (take i ks @ drop (i + 1) ks)"
    unfolding xs_def ys_def .
qed

lemma publish_keys:
  assumes "sorted_wrt (<) ks" "name \<notin> set ks"
  shows "set (sort_Strings (ks @ [name])) = insert name (set ks)"
    and "sorted_wrt (<) (sort_Strings (ks @ [name]))"
proof -
  show "set (sort_Strings (ks @ [name])) = insert name (set ks)"
    by (simp add: sort_Strings_def)
  have "distinct ks" using assms(1) strict_sorted_iff by blast
  then have "distinct (sort (ks @ [name]))" using assms(2) by simp
  moreover have "sorted (sort (ks @ [name]))" by (rule sorted_sort)
  ultimately show "sorted_wrt (<) (sort_Strings (ks @ [name]))"
    unfolding sort_Strings_def using strict_sorted_iff by blast
qed

lemma Map_inv_zero: "Map_inv zero_Map"
  by (simp add: Map_inv_def zero_Map_def)

lemma Bucket_inv_zero: "Bucket_inv zero_Bucket"
  by (simp add: Bucket_inv_def zero_Bucket_def)

lemma heap_inv_heap0: "heap_inv heap0"
  by (simp add: heap_inv_def heap0_def Map_inv_zero Bucket_inv_zero)

lemma Map_inv_addKey:
  assumes "Map_inv M" "st = (Map_m M)(key \<mapsto> v)"
  shows "Map_inv (M\<lparr>Map_m := st, Map_keys := addKey_keys key (Map_keys M)\<rparr>)"
  using assms by (auto simp: Map_inv_def addKey_keys_set addKey_keys_sorted)

lemma Map_inv_update:
  assumes "Map_inv M" "Map_m M key = Some a"
  shows "Map_inv (M\<lparr>Map_m := (Map_m M)(key \<mapsto> v)\<rparr>)"
  using assms by (auto simp: Map_inv_def)

lemma Map_Set_effect:
  "maps (Map_Set p key av h) = (maps h)(p :=
     (case Map_m (maps h p) key of
        None \<Rightarrow> (maps h p)\<lparr>Map_m := (Map_m (maps h p))(key \<mapsto> av),
                  Map_keys := addKey_keys key (Map_keys (maps h p))\<rparr>
      | Some a \<Rightarrow> (maps h p)\<lparr>Map_m := (Map_m (maps h p))(key \<mapsto> av)\<rparr>))"
  "buckets (Map_Set p key av h) = buckets h"
  by (simp_all add: Map_Set_def Load_def LoadOrStore_def Store_def Map_store_def Map_addKey_def
      split: option.splits)

lemma Map_inv_step:
  assumes "Map_inv M"
  shows "Map_inv (case Map_m M key of
        None \<Rightarrow> M\<lparr>Map_m := (Map_m M)(key \<mapsto> av), Map_keys := addKey_keys key (Map_keys M)\<rparr>
      | Some a \<Rightarrow> M\<lparr>Map_m := (Map_m M)(key \<mapsto> av)\<rparr>)"
proof (cases "Map_m M key")
  case None
  then show ?thesis using Map_inv_addKey[OF assms refl, of key av] by simp
next
  case (Some a)
  then show ?thesis using Map_inv_update[OF assms Some, of av] by simp
qed

lemma heap_inv_Map_Set: "heap_inv h \<Longrightarrow> heap_inv (Map_Set p key av h)"
  unfolding heap_inv_def by (simp add: Map_Set_effect Map_inv_step)

lemma Map_Add_effect:
  "maps (Map_Add p key delta h) = (maps h)(p :=
     (case Map_m (maps h p) key of
        None \<Rightarrow> (maps h p)\<lparr>Map_m := (Map_m (maps h p))(key \<mapsto> PInt (free h)),
                  Map_keys := addKey_keys key (Map_keys (maps h p))\<rparr>
      | Some a \<Rightarrow> maps h p))"
  "buckets (Map_Add p key delta h) = buckets h"
  by (simp_all add: Map_Add_def Load_def LoadOrStore_def Map_store_def Map_addKey_def
      new_Int_def Int_Add_def split: option.splits Var.splits)

lemma Map_AddFloat_effect:
  "maps (Map_AddFloat L p key delta h) = (maps h)(p :=
     (case Map_m (maps h p) key of
        None \<Rightarrow> (maps h p)\<lparr>Map_m := (Map_m (maps h p))(key \<mapsto> PFloat (free h)),
                  Map_keys := addKey_keys key (Map_keys (maps h p))\<rparr>
      | Some a \<Rightarrow> maps h p))"
  "buckets (Map_AddFloat L p key delta h) = buckets h"
  by (simp_all add: Map_AddFloat_def Load_def LoadOrStore_def Map_store_def Map_addKey_def
      new_Float_def Float_Add_def split: option.splits Var.splits)

lemma Map_inv_step_add:
  assumes "Map_inv M"
  shows "Map_inv (case Map_m M key of
        None \<Rightarrow> M\<lparr>Map_m := (Map_m M)(key \<mapsto> av), Map_keys := addKey_keys key (Map_keys M)\<rparr>
      | Some a \<Rightarrow> M)"
proof (cases "Map_m M key")
  case None
  then show ?thesis using Map_inv_addKey[OF assms refl, of key av] by simp
next
  case (Some a)
  then show ?thesis using assms by simp
qed

lemma heap_inv_Map_Add: "heap_inv h \<Longrightarrow> heap_inv (Map_Add p key delta h)"
  unfolding heap_inv_def by (simp add: Map_Add_effect Map_inv_step_add)

lemma heap_inv_Map_AddFloat: "heap_inv h \<Longrightarrow> heap_inv (Map_AddFloat L p key delta h)"
  unfolding heap_inv_def by (simp add: Map_AddFloat_effect Map_inv_step_add)

lemma heap_inv_Map_Init: "heap_inv h \<Longrightarrow> heap_inv (Map_Init p h)"
  unfolding heap_inv_def by (simp add: Map_Init_def Map_inv_def)

lemma Map_inv_Delete:
  assumes "Map_inv M" "i < length (Map_keys M)" "key = Map_keys M ! i"
  shows "Map_inv \<lparr>Map_m = (Map_m M)(key := None),
                  Map_keys = take i (Map_keys M) @ drop (Suc i) (Map_keys M)\<rparr>"
proof -
  have s: "sorted_wrt (<) (Map_keys M)" and d: "set (Map_keys M) = dom (Map_m M)"
    using assms(1) by (simp_all add: Map_inv_def)
  show ?thesis
    unfolding Map_inv_def using delete_keys[OF s assms(2)] d assms(3) by simp
qed

lemma heap_inv_Map_Delete: "heap_inv h \<Longrightarrow> heap_inv (Map_Delete p key h)"
  unfolding heap_inv_def by (simp add: Map_Delete_def Let_def Map_inv_Delete)

lemma Bucket_inv_Publish:
  assumes "Bucket_inv B" "Bucket_vars B name = None"
  shows "Bucket_inv (B\<lparr>Bucket_vars := (Bucket_vars B)(name \<mapsto> v),
                      Bucket_varKeys := sort_Strings (Bucket_varKeys B @ [name])\<rparr>)"
proof -
  have s: "sorted_wrt (<) (Bucket_varKeys B)" and d: "set (Bucket_varKeys B) = dom (Bucket_vars B)"
    using assms(1) by (simp_all add: Bucket_inv_def)
  have "name \<notin> set (Bucket_varKeys B)" using d assms(2) by auto
  from publish_keys[OF s this] show ?thesis
    unfolding Bucket_inv_def using d by simp
qed

lemma Bucket_Publish_effect:
  "maps (snd (Bucket_Publish b name v h)) = maps h"
  "buckets (snd (Bucket_Publish b name v h)) = (buckets h)(b :=
     (case Bucket_vars (buckets h b) name of
        None \<Rightarrow> (buckets h b)\<lparr>Bucket_vars := (Bucket_vars (buckets h b))(name \<mapsto> v),
                     Bucket_varKeys := sort_Strings (Bucket_varKeys (buckets h b) @ [name])\<rparr>
      | Some a \<Rightarrow> buckets h b))"
  by (simp_all add: Bucket_Publish_def LoadOrStore_def Bucket_store_def Let_def
      split: option.splits)

lemma heap_inv_Bucket_Publish: "heap_inv h \<Longrightarrow> heap_inv (snd (Bucket_Publish b name v h))"
  unfolding heap_inv_def
  by (simp add: Bucket_Publish_effect Bucket_inv_Publish split: option.splits)

lemma heap_inv_publish_new: "heap_inv h \<Longrightarrow> heap_inv (snd (publish_new b name v a h))"
proof -
  assume a: "heap_inv h"
  have "snd (publish_new b name v a h) = snd (Bucket_Publish b name v h)"
    by (simp add: publish_new_def split: prod.splits result.splits)
  then show ?thesis using heap_inv_Bucket_Publish[OF a] by simp
qed

lemma heap_inv_new:
  assumes "heap_inv h"
  shows "heap_inv (snd (new_Int h))" "heap_inv (snd (new_Float h))"
    "heap_inv (snd (new_String h))" "heap_inv (snd (new_Map h))"
  using assms unfolding heap_inv_def
  by (simp_all add: new_Int_def new_Float_def new_String_def new_Map_def Map_inv_zero)

lemma heap_inv_Bucket_NewMap: "heap_inv h \<Longrightarrow> heap_inv (snd (Bucket_NewMap b name h))"
proof -
  assume a: "heap_inv h"
  obtain x h1 where n: "new_Map h = (x, h1)" by (cases "new_Map h")
  then have "heap_inv h1" using heap_inv_new(4)[OF a] by simp
  then have "heap_inv (snd (publish_new b name (PMap x) x h1))" by (rule heap_inv_publish_new)
  then show ?thesis using a n
    by (simp add: Bucket_NewMap_def Let_def split: Var.splits)
qed

lemma heap_inv_Bucket_NewString: "heap_inv h \<Longrightarrow> heap_inv (snd (Bucket_NewString b name h))"
proof -
  assume a: "heap_inv h"
  obtain x h1 where n: "new_String h = (x, h1)" by (cases "new_String h")
  then have "heap_inv h1" using heap_inv_new(3)[OF a] by simp
  then have "heap_inv (snd (publish_new b name (PString x) x h1))" by (rule heap_inv_publish_new)
  then show ?thesis using a n
    by (simp add: Bucket_NewString_def Let_def split: Var.splits)
qed

lemma heap_inv_Bucket_NewInt: "heap_inv h \<Longrightarrow> heap_inv (snd (Bucket_NewInt b name h))"
proof -
  assume a: "heap_inv h"
  obtain x h1 where n: "new_Int h = (x, h1)" by (cases "new_Int h")
  then have "heap_inv h1" using heap_inv_new(1)[OF a] by simp
  then have "heap_inv (snd (publish_new b name (PInt x) x h1))" by (rule heap_inv_publish_new)
  then show ?thesis using a n
    by (simp add: Bucket_NewInt_def Let_def split: Var.splits)
qed

lemma heap_inv_Bucket_NewFloat: "heap_inv h \<Longrightarrow> heap_inv (snd (Bucket_NewFloat b name h))"
proof -
  assume a: "heap_inv h"
  obtain x h1 where n: "new_Float h = (x, h1)" by (cases "new_Float h")
  then have h1: "heap_inv h1" using heap_inv_new(2)[OF a] by simp
  then have "heap_inv (snd (publish_new b name (PFloat x) x h1))" by (rule heap_inv_publish_new)
  then show ?thesis using h1 n
    by (simp add: Bucket_NewFloat_def Let_def split: Var.splits)
qed

lemma heap_inv_scalars:
  assumes "heap_inv h"
  shows "heap_inv (Int_Add p d h)" "heap_inv (Int_Set p d h)"
    "heap_inv (Float_Add L p d h)" "heap_inv (Float_Set p d h)" "heap_inv (String_Set p s h)"
  using assms unfolding heap_inv_def
  by (simp_all add: Int_Add_def Int_Set_def Float_Add_def Float_Set_def String_Set_def Let_def)

lemma heap_inv_exec: "heap_inv h \<Longrightarrow> heap_inv (exec L c h)"
  by (cases c)
    (simp_all add: heap_inv_Map_Set heap_inv_Map_Add heap_inv_Map_AddFloat heap_inv_Map_Delete
      heap_inv_Map_Init heap_inv_Bucket_Publish heap_inv_Bucket_NewMap heap_inv_Bucket_NewString
      heap_inv_Bucket_NewInt heap_inv_Bucket_NewFloat heap_inv_scalars)

lemma heap_inv_run: "heap_inv h \<Longrightarrow> heap_inv (run L cs h)"
  by (induction cs arbitrary: h) (simp_all add: heap_inv_exec)

text \<open>
  Claim C1. Start from a program that has allocated nothing and let it make any sequence of
  calls (\<open>Map.Set\<close>, \<open>Map.Add\<close>, \<open>Map.AddFloat\<close>, \<open>Map.Delete\<close>, \<open>Map.Init\<close>,
  \<open>Bucket.Publish\<close>, the typed constructors and the scalar updates, on any maps and
  buckets). Afterwards, for every Map and every Bucket, the key slice holds exactly the keys
  of the store, it is in strictly ascending lexicographic order, and it has no duplicates.
\<close>

theorem key_index_matches_store:
  "set (Map_keys (maps (run L cs heap0) p)) = dom (Map_m (maps (run L cs heap0) p)) \<and>
   sorted_wrt (<) (Map_keys (maps (run L cs heap0) p)) \<and>
   distinct (Map_keys (maps (run L cs heap0) p)) \<and>
   set (Bucket_varKeys (buckets (run L cs heap0) b)) = dom (Bucket_vars (buckets (run L cs heap0) b)) \<and>
   sorted_wrt (<) (Bucket_varKeys (buckets (run L cs heap0) b)) \<and>
   distinct (Bucket_varKeys (buckets (run L cs heap0) b))"
proof -
  have "heap_inv (run L cs heap0)" by (rule heap_inv_run[OF heap_inv_heap0])
  then have "Map_inv (maps (run L cs heap0) p)" "Bucket_inv (buckets (run L cs heap0) b)"
    by (simp_all add: heap_inv_def)
  then show ?thesis
    unfolding Map_inv_def Bucket_inv_def using strict_sorted_iff[where ?'a = string] by blast
qed

lemma Map_Do_loop_Cons:
  "Map_Do_loop f p (k # ks) hs =
     (if Map_Get p k (fst hs) = VNil then (Panic NilInterfaceConversion, hs)
      else Map_Do_loop f p ks (f (k, Map_Get p k (fst hs)) hs))"
  by (simp add: Map_Get_def split: prod.splits Var.splits)

lemma Map_Do_loop_Ok:
  "Map_Do_loop f p ks hs = (Ok (), hs') \<Longrightarrow>
     \<exists>vs. length vs = length ks \<and> hs' = foldl (\<lambda>a kv. f kv a) hs (zip ks vs)"
proof (induction ks arbitrary: hs)
  case Nil
  then show ?case by simp
next
  case (Cons k ks)
  define i where "i = Map_Get p k (fst hs)"
  have "Map_Do_loop f p ks (f (k, i) hs) = (Ok (), hs')"
    using Cons.prems unfolding Map_Do_loop_Cons i_def by (simp split: if_splits)
  from Cons.IH[OF this] obtain vs where
    "length vs = length ks" "hs' = foldl (\<lambda>a kv. f kv a) (f (k, i) hs) (zip ks vs)" by blast
  then have "length (i # vs) = length (k # ks) \<and>
      hs' = foldl (\<lambda>a kv. f kv a) hs (zip (k # ks) (i # vs))" by simp
  then show ?case by blast
qed

lemma Map_Do_loop_total:
  assumes frame: "\<And>kv a. Map_m (maps (fst (f kv a)) p) = Map_m (maps (fst a) p)"
    and nn: "\<And>k. k \<in> set ks \<Longrightarrow> Map_Get p k (fst hs) \<noteq> VNil"
  shows "Map_Do_loop f p ks hs =
     (Ok (), foldl (\<lambda>a kv. f kv a) hs (map (\<lambda>k. (k, Map_Get p k (fst hs))) ks))"
  using nn
proof (induction ks arbitrary: hs)
  case Nil
  then show ?case by simp
next
  case (Cons k ks)
  define i where "i = Map_Get p k (fst hs)"
  have ne: "i \<noteq> VNil" using Cons.prems[of k] i_def by simp
  have same: "Map_Get p k' (fst (f kv a)) = Map_Get p k' (fst a)" for k' kv a
    by (simp add: Map_Get_def frame)
  have "Map_Do_loop f p ks (f (k, i) hs) =
     (Ok (), foldl (\<lambda>a kv. f kv a) (f (k, i) hs)
        (map (\<lambda>k'. (k', Map_Get p k' (fst (f (k, i) hs)))) ks))"
  proof (rule Cons.IH)
    fix k' assume "k' \<in> set ks"
    then show "Map_Get p k' (fst (f (k, i) hs)) \<noteq> VNil"
      using Cons.prems[of k'] by (simp add: same)
  qed
  then show ?case using ne unfolding Map_Do_loop_Cons i_def[symmetric] by (simp add: same i_def)
qed

lemma Bucket_Do_loop_Cons:
  "Bucket_Do_loop f b (k # ks) hs =
     (if Bucket_Get b k (fst hs) = VNil then (Panic NilInterfaceConversion, hs)
      else Bucket_Do_loop f b ks (f (k, Bucket_Get b k (fst hs)) hs))"
  by (simp add: Bucket_Get_def split: prod.splits Var.splits)

lemma Bucket_Do_loop_Ok:
  "Bucket_Do_loop f b ks hs = (Ok (), hs') \<Longrightarrow>
     \<exists>vs. length vs = length ks \<and> hs' = foldl (\<lambda>a kv. f kv a) hs (zip ks vs)"
proof (induction ks arbitrary: hs)
  case Nil
  then show ?case by simp
next
  case (Cons k ks)
  define i where "i = Bucket_Get b k (fst hs)"
  have "Bucket_Do_loop f b ks (f (k, i) hs) = (Ok (), hs')"
    using Cons.prems unfolding Bucket_Do_loop_Cons i_def by (simp split: if_splits)
  from Cons.IH[OF this] obtain vs where
    "length vs = length ks" "hs' = foldl (\<lambda>a kv. f kv a) (f (k, i) hs) (zip ks vs)" by blast
  then have "length (i # vs) = length (k # ks) \<and>
      hs' = foldl (\<lambda>a kv. f kv a) hs (zip (k # ks) (i # vs))" by simp
  then show ?case by blast
qed

lemma Bucket_Do_loop_total:
  assumes frame: "\<And>kv a. Bucket_vars (buckets (fst (f kv a)) b) = Bucket_vars (buckets (fst a) b)"
    and nn: "\<And>k. k \<in> set ks \<Longrightarrow> Bucket_Get b k (fst hs) \<noteq> VNil"
  shows "Bucket_Do_loop f b ks hs =
     (Ok (), foldl (\<lambda>a kv. f kv a) hs (map (\<lambda>k. (k, Bucket_Get b k (fst hs))) ks))"
  using nn
proof (induction ks arbitrary: hs)
  case Nil
  then show ?case by simp
next
  case (Cons k ks)
  define i where "i = Bucket_Get b k (fst hs)"
  have ne: "i \<noteq> VNil" using Cons.prems[of k] i_def by simp
  have same: "Bucket_Get b k' (fst (f kv a)) = Bucket_Get b k' (fst a)" for k' kv a
    by (simp add: Bucket_Get_def frame)
  have "Bucket_Do_loop f b ks (f (k, i) hs) =
     (Ok (), foldl (\<lambda>a kv. f kv a) (f (k, i) hs)
        (map (\<lambda>k'. (k', Bucket_Get b k' (fst (f (k, i) hs)))) ks))"
  proof (rule Cons.IH)
    fix k' assume "k' \<in> set ks"
    then show "Bucket_Get b k' (fst (f (k, i) hs)) \<noteq> VNil"
      using Cons.prems[of k'] by (simp add: same)
  qed
  then show ?case using ne unfolding Bucket_Do_loop_Cons i_def[symmetric] by (simp add: same i_def)
qed

lemma ex_keys: "addKey_keys ''b'' [] = [''b'']" "addKey_keys ''a'' [''b''] = [''a'', ''b'']"
  by code_simp+

lemma hW_maps: "Map_keys (maps hW 0) = [''a'', ''b'']"
  "Map_m (maps hW 0) = [''b'' \<mapsto> PInt 1, ''a'' \<mapsto> PInt 2]"
  "Bucket_varKeys (buckets hW 0) = [''x'', ''y'']"
  "Bucket_vars (buckets hW 0) = [''y'' \<mapsto> PInt 1, ''x'' \<mapsto> PMap 0]"
  by (simp_all add: hW_def heap0_def zero_Map_def zero_Bucket_def Map_Set_def Load_def
      LoadOrStore_def Store_def Map_store_def Map_addKey_def ex_keys Bucket_Publish_def
      Bucket_store_def sort_Strings_def Let_def)

lemma heap_inv_hW: "heap_inv hW"
  unfolding hW_def by (rule heap_inv_run[OF heap_inv_heap0])


text \<open>
  What \<open>Do\<close> does when nothing stored is nil. In a state the package can reach, the key
  slice of every Map and every Bucket is strictly ascending, without duplicates, and holds
  exactly the keys of the store. A \<open>Do\<close> that returns has called the visitor once for each key
  of that slice as it was when the walk started, in that order. And \<open>Do\<close> does return, having
  passed each key with the value stored under it, when no stored value is the nil interface
  and the visitor leaves the store of the map (of the bucket) alone.
\<close>

lemma Do_visits_keys_in_order:
  assumes "heap_inv h"
  shows
   "(sorted_wrt (<) (Map_keys (maps h p)) \<and> distinct (Map_keys (maps h p)) \<and>
     set (Map_keys (maps h p)) = dom (Map_m (maps h p))) \<and>
    (Map_Do f p (h, s) = (Ok (), hs') \<longrightarrow>
       (\<exists>vs. length vs = length (Map_keys (maps h p)) \<and>
             hs' = visits f (h, s) (zip (Map_keys (maps h p)) vs))) \<and>
    ((\<forall>kv a. Map_m (maps (fst (f kv a)) p) = Map_m (maps (fst a) p)) \<and>
     (\<forall>k \<in> set (Map_keys (maps h p)). Map_Get p k h \<noteq> VNil) \<longrightarrow>
       Map_Do f p (h, s) =
         (Ok (), visits f (h, s) (map (\<lambda>k. (k, Map_Get p k h)) (Map_keys (maps h p))))) \<and>
    (sorted_wrt (<) (Bucket_varKeys (buckets h b)) \<and> distinct (Bucket_varKeys (buckets h b)) \<and>
     set (Bucket_varKeys (buckets h b)) = dom (Bucket_vars (buckets h b))) \<and>
    (Bucket_Do g b (h, s) = (Ok (), hs') \<longrightarrow>
       (\<exists>vs. length vs = length (Bucket_varKeys (buckets h b)) \<and>
             hs' = visits g (h, s) (zip (Bucket_varKeys (buckets h b)) vs))) \<and>
    ((\<forall>kv a. Bucket_vars (buckets (fst (g kv a)) b) = Bucket_vars (buckets (fst a) b)) \<and>
     (\<forall>k \<in> set (Bucket_varKeys (buckets h b)). Bucket_Get b k h \<noteq> VNil) \<longrightarrow>
       Bucket_Do g b (h, s) =
         (Ok (), visits g (h, s) (map (\<lambda>k. (k, Bucket_Get b k h)) (Bucket_varKeys (buckets h b)))))"
proof -
  have "Map_inv (maps h p)" "Bucket_inv (buckets h b)"
    using assms by (simp_all add: heap_inv_def)
  then have inv: "sorted_wrt (<) (Map_keys (maps h p)) \<and> distinct (Map_keys (maps h p)) \<and>
     set (Map_keys (maps h p)) = dom (Map_m (maps h p))"
    "sorted_wrt (<) (Bucket_varKeys (buckets h b)) \<and> distinct (Bucket_varKeys (buckets h b)) \<and>
     set (Bucket_varKeys (buckets h b)) = dom (Bucket_vars (buckets h b))"
    unfolding Map_inv_def Bucket_inv_def using strict_sorted_iff[where ?'a = string] by blast+
  have m1: "Map_Do f p (h, s) = (Ok (), hs') \<longrightarrow>
       (\<exists>vs. length vs = length (Map_keys (maps h p)) \<and>
             hs' = visits f (h, s) (zip (Map_keys (maps h p)) vs))"
    unfolding Map_Do_def visits_def using Map_Do_loop_Ok[of f p _ "(h, s)" hs'] by simp
  have m2: "(\<forall>kv a. Map_m (maps (fst (f kv a)) p) = Map_m (maps (fst a) p)) \<and>
     (\<forall>k \<in> set (Map_keys (maps h p)). Map_Get p k h \<noteq> VNil) \<longrightarrow>
       Map_Do f p (h, s) =
         (Ok (), visits f (h, s) (map (\<lambda>k. (k, Map_Get p k h)) (Map_keys (maps h p))))"
  proof (intro impI)
    assume a: "(\<forall>kv a. Map_m (maps (fst (f kv a)) p) = Map_m (maps (fst a) p)) \<and>
     (\<forall>k \<in> set (Map_keys (maps h p)). Map_Get p k h \<noteq> VNil)"
    have fr: "\<And>kv a. Map_m (maps (fst (f kv a)) p) = Map_m (maps (fst a) p)"
      using a by blast
    have nn: "\<And>k. k \<in> set (Map_keys (maps h p)) \<Longrightarrow> Map_Get p k (fst (h, s)) \<noteq> VNil"
      using a by simp
    show "Map_Do f p (h, s) =
         (Ok (), visits f (h, s) (map (\<lambda>k. (k, Map_Get p k h)) (Map_keys (maps h p))))"
      unfolding Map_Do_def visits_def
      using Map_Do_loop_total[of f p "Map_keys (maps h p)" "(h, s)", OF fr nn] by simp
  qed
  have b1: "Bucket_Do g b (h, s) = (Ok (), hs') \<longrightarrow>
       (\<exists>vs. length vs = length (Bucket_varKeys (buckets h b)) \<and>
             hs' = visits g (h, s) (zip (Bucket_varKeys (buckets h b)) vs))"
    unfolding Bucket_Do_def visits_def using Bucket_Do_loop_Ok[of g b _ "(h, s)" hs'] by simp
  have b2: "(\<forall>kv a. Bucket_vars (buckets (fst (g kv a)) b) = Bucket_vars (buckets (fst a) b)) \<and>
     (\<forall>k \<in> set (Bucket_varKeys (buckets h b)). Bucket_Get b k h \<noteq> VNil) \<longrightarrow>
       Bucket_Do g b (h, s) =
         (Ok (), visits g (h, s) (map (\<lambda>k. (k, Bucket_Get b k h)) (Bucket_varKeys (buckets h b))))"
  proof (intro impI)
    assume a: "(\<forall>kv a. Bucket_vars (buckets (fst (g kv a)) b) = Bucket_vars (buckets (fst a) b)) \<and>
     (\<forall>k \<in> set (Bucket_varKeys (buckets h b)). Bucket_Get b k h \<noteq> VNil)"
    have fr: "\<And>kv a. Bucket_vars (buckets (fst (g kv a)) b) = Bucket_vars (buckets (fst a) b)"
      using a by blast
    have nn: "\<And>k. k \<in> set (Bucket_varKeys (buckets h b)) \<Longrightarrow> Bucket_Get b k (fst (h, s)) \<noteq> VNil"
      using a by simp
    show "Bucket_Do g b (h, s) =
         (Ok (), visits g (h, s) (map (\<lambda>k. (k, Bucket_Get b k h)) (Bucket_varKeys (buckets h b))))"
      unfolding Bucket_Do_def visits_def
      using Bucket_Do_loop_total[of g b "Bucket_varKeys (buckets h b)" "(h, s)", OF fr nn] by simp
  qed
  show ?thesis using inv m1 m2 b1 b2 by blast
qed

lemma Do_visits_keys_in_order_example:
  "heap_inv hW \<and>
   Map_Do (\<lambda>kv (h, log). (h, log @ [kv])) 0 (hW, []) =
     (Ok (), (hW, [(''a'', PInt 2), (''b'', PInt 1)])) \<and>
   Bucket_Do (\<lambda>kv (h, log). (h, log @ [kv])) 0 (hW, []) =
     (Ok (), (hW, [(''x'', PMap 0), (''y'', PInt 1)]))"
  using heap_inv_hW
    Do_visits_keys_in_order[OF heap_inv_hW, of 0 "\<lambda>kv (h, log). (h, log @ [kv])" "[]" "(hW, [])"
      0 "\<lambda>kv (h, log). (h, log @ [kv])"]
  by (simp add: hW_maps Map_Get_def Bucket_Get_def Load_def visits_def split_def)

text \<open>
  Claim C2 fails on the code. A map is given an \<open>Int\<close> under \<^verbatim>\<open>a\<close>, the nil interface under
  \<^verbatim>\<open>c\<close> and an \<open>Int\<close> under \<^verbatim>\<open>d\<close>; all three keys are in the key slice and in the store. \<open>Do\<close>
  with a visitor that records the keys it is called with calls it for \<^verbatim>\<open>a\<close>, then panics at
  \<^verbatim>\<open>c\<close> on the unchecked \<^verbatim>\<open>i.(Var)\<close>: the visitor is never called for \<^verbatim>\<open>c\<close> nor for \<^verbatim>\<open>d\<close>. The
  same holds for a bucket after \<^verbatim>\<open>NewInt("a")\<close>, \<^verbatim>\<open>Publish("c", nil)\<close> and \<^verbatim>\<open>NewInt("d")\<close>.
\<close>

theorem Do_stops_at_nil_entry:
  "Map_keys (maps hD 0) = [''a'', ''c'', ''d''] \<and>
   Map_Get 0 ''a'' hD = PInt 0 \<and> Map_Get 0 ''c'' hD = VNil \<and> Map_Get 0 ''d'' hD = PInt 1 \<and>
   fst (Map_Do (\<lambda>kv (h, log). (h, log @ [fst kv])) 0 (hD, [])) = Panic NilInterfaceConversion \<and>
   snd (snd (Map_Do (\<lambda>kv (h, log). (h, log @ [fst kv])) 0 (hD, []))) = [''a''] \<and>
   Bucket_varKeys (buckets hD 0) = [''a'', ''c'', ''d''] \<and>
   Bucket_Get 0 ''a'' hD = PInt 2 \<and> Bucket_Get 0 ''c'' hD = VNil \<and> Bucket_Get 0 ''d'' hD = PInt 3 \<and>
   fst (Bucket_Do (\<lambda>kv (h, log). (h, log @ [fst kv])) 0 (hD, [])) = Panic NilInterfaceConversion \<and>
   snd (snd (Bucket_Do (\<lambda>kv (h, log). (h, log @ [fst kv])) 0 (hD, []))) = [''a'']"
  by code_simp

text \<open>
  Claim C3 fails on the code. \<^verbatim>\<open>Map.String\<close> writes the separator before it marshals the
  value, so an entry that fails to marshal after one that was written leaves its separator
  behind: with an \<open>Int\<close> 1 under \<^verbatim>\<open>a\<close> and a \<^verbatim>\<open>Func\<close> under \<^verbatim>\<open>b\<close> the result is \<^verbatim>\<open>{"a": 1, }\<close>,
  which is not well-formed JSON, and not \<^verbatim>\<open>{"a": 1}\<close>, the object of the remaining entry.
\<close>

theorem Map_String_stray_separator:
  "Map_Get 0 ''a'' hC = PInt 0 \<and> Int_Value 0 hC = 1 \<and> Map_Get 0 ''b'' hC = VFunc GoNil \<and>
   json_Marshal_Var lib0 hC (Map_Get 0 ''b'' hC) = None \<and>
   Map_String lib0 0 hC =
     Ok [CHR ''{'', CHR 0x22, CHR ''a'', CHR 0x22, CHR '':'', CHR '' '', CHR ''1'', CHR '','',
         CHR '' '', CHR ''}''] \<and>
   \<not> json_valid [CHR ''{'', CHR 0x22, CHR ''a'', CHR 0x22, CHR '':'', CHR '' '', CHR ''1'',
                   CHR '','', CHR '' '', CHR ''}''] \<and>
   json_valid [CHR ''{'', CHR 0x22, CHR ''a'', CHR 0x22, CHR '':'', CHR '' '', CHR ''1'', CHR ''}'']"
  by code_simp

lemma Bucket_store_same: "Bucket_store b (Bucket_vars (buckets h b)) h = h"
  by (simp add: Bucket_store_def)

lemma Bucket_Publish_dup:
  assumes "Bucket_vars (buckets h b) name = Some v0"
  shows "Bucket_Publish b name v h = (Panic (ReuseOfName name), h)"
  using assms by (simp add: Bucket_Publish_def LoadOrStore_def Bucket_store_same)

lemma Bucket_Publish_Ok:
  assumes "Bucket_Publish b name v h = (Ok (), h1)"
  shows "Bucket_vars (buckets h b) name = None" "Bucket_vars (buckets h1 b) name = Some v"
  using assms
  by (auto simp: Bucket_Publish_def LoadOrStore_def Bucket_store_def Let_def
      split: option.splits)

text \<open>
  Claim C4. \<open>Bucket.Publish\<close> of a name the bucket already holds panics (after logging) with the
  reuse message and changes nothing: the state after it is the state before it, so
  \<open>Get(name)\<close> still returns the variable published first and the key slice is the same. In
  particular a \<open>Publish\<close> that follows a successful \<open>Publish\<close> of the same name panics and
  leaves the first variable in place.
\<close>

theorem Publish_twice_panics:
  "(Bucket_vars (buckets h b) name = Some v0 \<longrightarrow>
      Bucket_Publish b name v h = (Panic (ReuseOfName name), h) \<and>
      Bucket_Get b name (snd (Bucket_Publish b name v h)) = v0 \<and>
      Bucket_varKeys (buckets (snd (Bucket_Publish b name v h)) b) = Bucket_varKeys (buckets h b)) \<and>
   (Bucket_Publish b name v1 h = (Ok (), h1) \<longrightarrow>
      Bucket_Publish b name v2 h1 = (Panic (ReuseOfName name), h1) \<and>
      Bucket_Get b name (snd (Bucket_Publish b name v2 h1)) = v1 \<and>
      Bucket_varKeys (buckets (snd (Bucket_Publish b name v2 h1)) b) = Bucket_varKeys (buckets h1 b))"
proof (intro conjI impI)
  assume a: "Bucket_vars (buckets h b) name = Some v0"
  note d = Bucket_Publish_dup[OF a, of v]
  show "Bucket_Publish b name v h = (Panic (ReuseOfName name), h)" by (rule d)
  show "Bucket_Get b name (snd (Bucket_Publish b name v h)) = v0"
    using a by (simp add: d Bucket_Get_def Load_def)
  show "Bucket_varKeys (buckets (snd (Bucket_Publish b name v h)) b) = Bucket_varKeys (buckets h b)"
    by (simp add: d)
next
  assume a: "Bucket_Publish b name v1 h = (Ok (), h1)"
  note s = Bucket_Publish_Ok(2)[OF a]
  note d = Bucket_Publish_dup[OF s, of v2]
  show "Bucket_Publish b name v2 h1 = (Panic (ReuseOfName name), h1)" by (rule d)
  show "Bucket_Get b name (snd (Bucket_Publish b name v2 h1)) = v1"
    using s by (simp add: d Bucket_Get_def Load_def)
  show "Bucket_varKeys (buckets (snd (Bucket_Publish b name v2 h1)) b) = Bucket_varKeys (buckets h1 b)"
    by (simp add: d)
qed

lemma hW_Publish: "Bucket_Publish 0 ''x'' (PInt 5) heap0 =
   (Ok (), heap0\<lparr>buckets := (buckets heap0)(0 := \<lparr>Bucket_vars = [''x'' \<mapsto> PInt 5], Bucket_varKeys = [''x'']\<rparr>)\<rparr>)"
  by (simp add: Bucket_Publish_def LoadOrStore_def Bucket_store_def Let_def heap0_def
      zero_Bucket_def sort_Strings_def)

theorem Publish_twice_panics_witness:
  "Bucket_vars (buckets hW 0) ''x'' = Some (PMap 0) \<and>
   Bucket_Publish 0 ''x'' (PInt 7) hW = (Panic (ReuseOfName ''x''), hW) \<and>
   Bucket_Get 0 ''x'' (snd (Bucket_Publish 0 ''x'' (PInt 7) hW)) = PMap 0 \<and>
   Bucket_varKeys (buckets (snd (Bucket_Publish 0 ''x'' (PInt 7) hW)) 0) = [''x'', ''y''] \<and>
   fst (Bucket_Publish 0 ''x'' (PInt 5) heap0) = Ok () \<and>
   fst (Bucket_Publish 0 ''x'' (PInt 2) (snd (Bucket_Publish 0 ''x'' (PInt 5) heap0))) =
     Panic (ReuseOfName ''x'') \<and>
   Bucket_Get 0 ''x'' (snd (Bucket_Publish 0 ''x'' (PInt 2) (snd (Bucket_Publish 0 ''x'' (PInt 5) heap0))))
     = PInt 5"
  using Publish_twice_panics[of hW 0 "''x''" "PMap 0" "PInt 7" "PInt 5"]
    Publish_twice_panics[of heap0 0 "''x''" "PInt 5" "PInt 5" "PInt 5"
      "snd (Bucket_Publish 0 ''x'' (PInt 5) heap0)" "PInt 2"]
  by (simp add: hW_maps hW_Publish Bucket_Get_def Load_def)

lemma Map_Add_absent:
  assumes "Map_m (maps h p) key = None"
  shows "Map_Add p key delta h =
    h\<lparr>ints := (ints h)(free h := delta), free := Suc (free h),
      maps := (maps h)(p := (maps h p)\<lparr>Map_m := (Map_m (maps h p))(key \<mapsto> PInt (free h)),
                  Map_keys := addKey_keys key (Map_keys (maps h p))\<rparr>)\<rparr>"
  using assms
  by (simp add: Map_Add_def Load_def LoadOrStore_def Map_store_def Map_addKey_def
      new_Int_def Int_Add_def)

lemma Map_AddFloat_absent:
  assumes "Map_m (maps h p) key = None"
  shows "Map_AddFloat L p key delta h =
    h\<lparr>floats := (floats h)(free h := float_add L 0 delta), free := Suc (free h),
      maps := (maps h)(p := (maps h p)\<lparr>Map_m := (Map_m (maps h p))(key \<mapsto> PFloat (free h)),
                  Map_keys := addKey_keys key (Map_keys (maps h p))\<rparr>)\<rparr>"
  using assms
  by (simp add: Map_AddFloat_def Load_def LoadOrStore_def Map_store_def Map_addKey_def
      new_Float_def Float_Add_def Let_def)

lemma Map_Add_other:
  assumes "Map_m (maps h p) key = Some v" "\<forall>a. v \<noteq> PInt a"
  shows "Map_Add p key delta h = h"
  using assms by (cases v) (simp_all add: Map_Add_def Load_def)

lemma Map_AddFloat_other:
  assumes "Map_m (maps h p) key = Some v" "\<forall>a. v \<noteq> PFloat a"
  shows "Map_AddFloat L p key delta h = h"
  using assms by (cases v) (simp_all add: Map_AddFloat_def Load_def)

text \<open>
  Claim C5. \<open>Map.Add(key, delta)\<close> on a key the store does not hold allocates a new \<open>Int\<close>
  (value 0), stores it under the key, and adds \<open>delta\<close>: afterwards \<open>Get(key)\<close> is that \<open>Int\<close>
  and its value is \<open>delta\<close>. On a key bound to anything that is not an \<open>*Int\<close> the call
  returns the state it was given. \<open>Map.AddFloat\<close> does the same with a new \<open>Float\<close>, whose
  value afterwards is the float64 sum of zero and \<open>delta\<close>.
\<close>

theorem Map_Add_creates_or_ignores:
  "(Map_m (maps h p) key = None \<longrightarrow>
      Map_Get p key (Map_Add p key delta h) = PInt (free h) \<and>
      Int_Value (free h) (snd (new_Int h)) = 0 \<and>
      Int_Value (free h) (Map_Add p key delta h) = delta \<and>
      dom (Map_m (maps (Map_Add p key delta h) p)) = insert key (dom (Map_m (maps h p)))) \<and>
   (Map_m (maps h p) key = Some v \<and> (\<forall>a. v \<noteq> PInt a) \<longrightarrow> Map_Add p key delta h = h) \<and>
   (Map_m (maps h p) key = None \<longrightarrow>
      Map_Get p key (Map_AddFloat L p key fdelta h) = PFloat (free h) \<and>
      Float_Value (free h) (snd (new_Float h)) = 0 \<and>
      Float_Value (free h) (Map_AddFloat L p key fdelta h) = float_add L 0 fdelta \<and>
      dom (Map_m (maps (Map_AddFloat L p key fdelta h) p)) = insert key (dom (Map_m (maps h p)))) \<and>
   (Map_m (maps h p) key = Some v \<and> (\<forall>a. v \<noteq> PFloat a) \<longrightarrow> Map_AddFloat L p key fdelta h = h)"
proof (intro conjI impI)
  assume a: "Map_m (maps h p) key = None"
  show "Map_Get p key (Map_Add p key delta h) = PInt (free h)"
    by (simp add: Map_Add_absent[OF a] Map_Get_def Load_def)
  show "Int_Value (free h) (snd (new_Int h)) = 0" by (simp add: new_Int_def Int_Value_def)
  show "Int_Value (free h) (Map_Add p key delta h) = delta"
    by (simp add: Map_Add_absent[OF a] Int_Value_def)
  show "dom (Map_m (maps (Map_Add p key delta h) p)) = insert key (dom (Map_m (maps h p)))"
    by (simp add: Map_Add_absent[OF a])
  show "Map_Get p key (Map_AddFloat L p key fdelta h) = PFloat (free h)"
    by (simp add: Map_AddFloat_absent[OF a] Map_Get_def Load_def)
  show "Float_Value (free h) (snd (new_Float h)) = 0" by (simp add: new_Float_def Float_Value_def)
  show "Float_Value (free h) (Map_AddFloat L p key fdelta h) = float_add L 0 fdelta"
    by (simp add: Map_AddFloat_absent[OF a] Float_Value_def)
  show "dom (Map_m (maps (Map_AddFloat L p key fdelta h) p)) = insert key (dom (Map_m (maps h p)))"
    by (simp add: Map_AddFloat_absent[OF a])
next
  assume "Map_m (maps h p) key = Some v \<and> (\<forall>a. v \<noteq> PInt a)"
  then show "Map_Add p key delta h = h" using Map_Add_other by blast
next
  assume "Map_m (maps h p) key = Some v \<and> (\<forall>a. v \<noteq> PFloat a)"
  then show "Map_AddFloat L p key fdelta h = h" using Map_AddFloat_other by blast
qed

theorem Map_Add_creates_or_ignores_witness:
  "Map_m (maps hW 0) ''c'' = None \<and>
   Map_Get 0 ''c'' (Map_Add 0 ''c'' 7 hW) = PInt (free hW) \<and>
   Int_Value (free hW) (Map_Add 0 ''c'' 7 hW) = 7 \<and>
   Map_m (maps hW 0) ''a'' = Some (PInt 2) \<and>
   Map_AddFloat lib0 0 ''a'' 7 hW = hW \<and>
   Float_Value (free hW) (Map_AddFloat lib0 0 ''c'' 7 hW) = 7 \<and>
   Map_m (maps (Map_Set 0 ''s'' (PString 3) hW) 0) ''s'' = Some (PString 3) \<and>
   Map_Add 0 ''s'' 7 (Map_Set 0 ''s'' (PString 3) hW) = Map_Set 0 ''s'' (PString 3) hW"
  using Map_Add_creates_or_ignores[of hW 0 "''c''" 7 "PInt 2" lib0 7]
    Map_Add_creates_or_ignores[of hW 0 "''a''" 7 "PInt 2" lib0 7]
    Map_Add_creates_or_ignores[of "Map_Set 0 ''s'' (PString 3) hW" 0 "''s''" 7 "PString 3" lib0 7]
  by (simp add: hW_maps lib0_def Map_Set_effect split: option.splits)

lemma strict_sorted_unique:
  fixes xs ys :: "string list"
  assumes "sorted_wrt (<) xs" "sorted_wrt (<) ys" "set xs = set ys"
  shows "xs = ys"
proof -
  have "sorted xs" "distinct xs" "sorted ys" "distinct ys"
    using assms(1,2) strict_sorted_iff[where ?'a = string] by blast+
  then show ?thesis using assms(3) by (metis sorted_distinct_set_unique)
qed

lemma keys_ab:
  assumes "Map_inv M" "Map_m M = [''a'' \<mapsto> va, ''b'' \<mapsto> vb]"
  shows "Map_keys M = [''a'', ''b'']"
proof (rule strict_sorted_unique)
  show "sorted_wrt (<) (Map_keys M)" using assms(1) by (simp add: Map_inv_def)
  show "sorted_wrt (<) [''a'', ''b'']" by simp
  show "set (Map_keys M) = set [''a'', ''b'']"
    using assms by (auto simp: Map_inv_def)
qed

lemma render_pieces:
  "FormatInt 5 = ''5''" "Quote ''a'' = [dquote, CHR ''a'', dquote]"
  "Quote ''b'' = [dquote, CHR ''b'', dquote]" "json_string ''x'' = [dquote, CHR ''x'', dquote]"
  by code_simp+

lemma Map_String_a5_bx:
  assumes "Map_inv (maps h p)" "Map_m (maps h p) = [''a'' \<mapsto> PInt i, ''b'' \<mapsto> PString s]"
    "Int_Value i h = 5" "String_Value s h = ''x''"
  shows "Map_String L p h = Ok text_a5_bx"
  using assms(2,3,4)
  by (simp add: Map_String_def Map_Do_def keys_ab[OF assms(1,2)] Load_def Map_String_visit_def
      json_Marshal_Var_def Int_MarshalJSON_def String_MarshalJSON_def render_pieces text_a5_bx_def)

text \<open>
  Claim C6. A Map (in a state the package can reach) that holds exactly an \<open>Int\<close> of value 5
  under \<^verbatim>\<open>a\<close> and a \<open>String\<close> of value \<^verbatim>\<open>x\<close> under \<^verbatim>\<open>b\<close> renders as
  \<^verbatim>\<open>{"a": 5, "b": "x"}\<close>; and starting from an empty map, setting \<^verbatim>\<open>b\<close> then \<^verbatim>\<open>a\<close> and
  setting \<^verbatim>\<open>a\<close> then \<^verbatim>\<open>b\<close> both give that text.
\<close>

theorem Map_String_sorted_whatever_insertion_order:
  "(heap_inv h \<and> Map_m (maps h p) = [''a'' \<mapsto> PInt i, ''b'' \<mapsto> PString s] \<and>
      Int_Value i h = 5 \<and> String_Value s h = ''x'' \<longrightarrow>
      Map_String L p h = Ok text_a5_bx) \<and>
   (heap_inv h \<and> Map_m (maps h p) = Map.empty \<and> Int_Value i h = 5 \<and> String_Value s h = ''x'' \<longrightarrow>
      Map_String L p (Map_Set p ''a'' (PInt i) (Map_Set p ''b'' (PString s) h)) = Ok text_a5_bx \<and>
      Map_String L p (Map_Set p ''b'' (PString s) (Map_Set p ''a'' (PInt i) h)) = Ok text_a5_bx)"
proof (intro conjI impI)
  assume a: "heap_inv h \<and> Map_m (maps h p) = [''a'' \<mapsto> PInt i, ''b'' \<mapsto> PString s] \<and>
      Int_Value i h = 5 \<and> String_Value s h = ''x''"
  then have "Map_inv (maps h p)" by (simp add: heap_inv_def)
  then show "Map_String L p h = Ok text_a5_bx" using a Map_String_a5_bx by blast
next
  assume a: "heap_inv h \<and> Map_m (maps h p) = Map.empty \<and> Int_Value i h = 5 \<and> String_Value s h = ''x''"
  let ?h1 = "Map_Set p ''a'' (PInt i) (Map_Set p ''b'' (PString s) h)"
  let ?h2 = "Map_Set p ''b'' (PString s) (Map_Set p ''a'' (PInt i) h)"
  have i1: "Map_inv (maps ?h1 p)" and i2: "Map_inv (maps ?h2 p)"
    using a heap_inv_Map_Set by (simp_all add: heap_inv_def)
  have m: "Map_m (maps (Map_Set p k v h') p) = (Map_m (maps h' p))(k \<mapsto> v)" for k v h'
    by (simp add: Map_Set_effect split: option.splits)
  have m1: "Map_m (maps ?h1 p) = [''a'' \<mapsto> PInt i, ''b'' \<mapsto> PString s]"
    using a by (simp add: m fun_upd_twist)
  have m2: "Map_m (maps ?h2 p) = [''a'' \<mapsto> PInt i, ''b'' \<mapsto> PString s]"
    using a by (simp add: m)
  have v: "Int_Value i (Map_Set p k v h') = Int_Value i h'"
    "String_Value s (Map_Set p k v h') = String_Value s h'" for k v h'
    by (simp_all add: Int_Value_def String_Value_def Map_Set_def Map_store_def Map_addKey_def
        LoadOrStore_def Load_def Store_def split: option.splits)
  show "Map_String L p ?h1 = Ok text_a5_bx"
    by (rule Map_String_a5_bx[OF i1 m1]) (simp_all add: v a)
  show "Map_String L p ?h2 = Ok text_a5_bx"
    by (rule Map_String_a5_bx[OF i2 m2]) (simp_all add: v a)
qed

lemma hX_facts: "heap_inv hX" "Map_m (maps hX 0) = Map.empty" "Int_Value 0 hX = 5"
  "String_Value 0 hX = ''x''"
  unfolding hX_def
  by (rule heap_inv_run[OF heap_inv_heap0])
    (simp_all add: heap0_def zero_Map_def Int_Set_def String_Set_def Int_Value_def String_Value_def)

theorem Map_String_sorted_whatever_insertion_order_witness:
  "Map_String lib0 0 (Map_Set 0 ''a'' (PInt 0) (Map_Set 0 ''b'' (PString 0) hX)) =
     Ok [CHR ''{'', CHR 0x22, CHR ''a'', CHR 0x22, CHR '':'', CHR '' '', CHR ''5'', CHR '','',
         CHR '' '', CHR 0x22, CHR ''b'', CHR 0x22, CHR '':'', CHR '' '', CHR 0x22, CHR ''x'',
         CHR 0x22, CHR ''}''] \<and>
   Map_String lib0 0 (Map_Set 0 ''b'' (PString 0) (Map_Set 0 ''a'' (PInt 0) hX)) =
     Map_String lib0 0 (Map_Set 0 ''a'' (PInt 0) (Map_Set 0 ''b'' (PString 0) hX)) \<and>
   Map_m (maps (Map_Set 0 ''b'' (PString 0) (Map_Set 0 ''a'' (PInt 0) hX)) 0) =
     [''a'' \<mapsto> PInt 0, ''b'' \<mapsto> PString 0] \<and>
   Map_String lib0 0 (Map_Set 0 ''b'' (PString 0) (Map_Set 0 ''a'' (PInt 0) hX)) = Ok text_a5_bx"
proof -
  let ?h2 = "Map_Set 0 ''b'' (PString 0) (Map_Set 0 ''a'' (PInt 0) hX)"
  note T = Map_String_sorted_whatever_insertion_order[of hX 0 0 0 lib0, THEN conjunct2, rule_format]
  note U = Map_String_sorted_whatever_insertion_order[of ?h2 0 0 0 lib0, THEN conjunct1, rule_format]
  have "heap_inv hX \<and> Map_m (maps hX 0) = Map.empty \<and> Int_Value 0 hX = 5 \<and>
    String_Value 0 hX = ''x''" using hX_facts by blast
  note T' = T[OF this]
  have m: "Map_m (maps ?h2 0) = [''a'' \<mapsto> PInt 0, ''b'' \<mapsto> PString 0]"
    by (simp add: Map_Set_effect hX_facts(2) split: option.splits)
  have v: "Int_Value 0 ?h2 = 5" "String_Value 0 ?h2 = ''x''"
    using hX_facts(3,4)
    by (simp_all add: Int_Value_def String_Value_def Map_Set_def Map_store_def Map_addKey_def
        LoadOrStore_def Load_def Store_def split: option.splits)
  have "heap_inv ?h2" by (intro heap_inv_Map_Set hX_facts(1))
  then have "Map_String lib0 0 ?h2 = Ok text_a5_bx" using U m v by blast
  then show ?thesis using T' m by (simp add: text_a5_bx_def dquote_def)
qed

text \<open>
  Claim C7 fails on the code. After \<^verbatim>\<open>m.Set("k", nil)\<close> the key is in the key slice and the
  store holds the nil interface for it; \<open>Get\<close> returns nil, but \<open>Do\<close> asserts \<^verbatim>\<open>i.(Var)\<close>
  without the second result and panics, whatever the visitor. The same holds for a bucket
  after \<^verbatim>\<open>Publish("k", nil)\<close>.
\<close>

theorem Do_panics_on_nil_entry:
  "Map_keys (maps hN 0) = [''k''] \<and> Map_Get 0 ''k'' hN = VNil \<and>
   fst (Map_Do f 0 (hN, s)) = Panic NilInterfaceConversion \<and>
   Bucket_varKeys (buckets hN 0) = [''k''] \<and> Bucket_Get 0 ''k'' hN = VNil \<and>
   fst (Bucket_Do g 0 (hN, s)) = Panic NilInterfaceConversion"
  by code_simp

lemma publish_new_Ok:
  assumes "publish_new b name v a h = (Ok x, h1)"
  shows "x = a" "Bucket_vars (buckets h1 b) name = Some v"
  using assms
  by (auto simp: publish_new_def Bucket_Publish_def LoadOrStore_def Bucket_store_def Let_def
      split: option.splits)

lemma publish_new_free:
  assumes "publish_new b name v a h = (r, h1)"
  shows "free h1 = free h"
  using assms
  by (auto simp: publish_new_def Bucket_Publish_def LoadOrStore_def Bucket_store_def Let_def
      split: option.splits)

lemma Bucket_NewInt_Ok:
  assumes "Bucket_NewInt b name h = (Ok a, h1)"
  shows "Bucket_vars (buckets h1 b) name = Some (PInt a)"
proof (cases "Bucket_Get b name h = VNil")
  case True
  then have "publish_new b name (PInt (free h)) (free h) (snd (new_Int h)) = (Ok a, h1)"
    using assms by (simp add: Bucket_NewInt_def new_Int_def)
  from publish_new_Ok[OF this] show ?thesis by simp
next
  case False
  then show ?thesis using assms
    by (cases "Bucket_Get b name h")
      (auto simp: Bucket_NewInt_def Bucket_Get_def Load_def split: option.splits)
qed

lemma Bucket_NewInt_found:
  assumes "Bucket_vars (buckets h b) name = Some (PInt a)"
  shows "Bucket_NewInt b name h = (Ok a, h)"
  using assms by (simp add: Bucket_NewInt_def Bucket_Get_def Load_def)

lemma Bucket_NewString_Ok:
  assumes "Bucket_NewString b name h = (Ok a, h1)"
  shows "Bucket_vars (buckets h1 b) name = Some (PString a)"
proof (cases "Bucket_Get b name h = VNil")
  case True
  then have "publish_new b name (PString (free h)) (free h) (snd (new_String h)) = (Ok a, h1)"
    using assms by (simp add: Bucket_NewString_def new_String_def)
  from publish_new_Ok[OF this] show ?thesis by simp
next
  case False
  then show ?thesis using assms
    by (cases "Bucket_Get b name h")
      (auto simp: Bucket_NewString_def Bucket_Get_def Load_def split: option.splits)
qed

lemma Bucket_NewString_found:
  assumes "Bucket_vars (buckets h b) name = Some (PString a)"
  shows "Bucket_NewString b name h = (Ok a, h)"
  using assms by (simp add: Bucket_NewString_def Bucket_Get_def Load_def)

lemma Bucket_NewMap_Ok:
  assumes "Bucket_NewMap b name h = (Ok a, h1)"
  shows "Bucket_vars (buckets h1 b) name = Some (PMap a)"
proof (cases "Bucket_Get b name h = VNil")
  case True
  then have "publish_new b name (PMap (free h)) (free h) (snd (new_Map h)) = (Ok a, h1)"
    using assms by (simp add: Bucket_NewMap_def new_Map_def)
  from publish_new_Ok[OF this] show ?thesis by simp
next
  case False
  then show ?thesis using assms
    by (cases "Bucket_Get b name h")
      (auto simp: Bucket_NewMap_def Bucket_Get_def Load_def split: option.splits)
qed

lemma Bucket_NewMap_found:
  assumes "Bucket_vars (buckets h b) name = Some (PMap a)"
  shows "Bucket_NewMap b name h = (Ok a, h)"
  using assms by (simp add: Bucket_NewMap_def Bucket_Get_def Load_def)

lemma Bucket_NewFloat_Ok:
  assumes "Bucket_NewFloat b name h = (Ok a, h1)"
  shows "Bucket_vars (buckets h1 b) name = Some (PFloat a)"
proof (cases "Bucket_Get b name (snd (new_Float h)) = VNil")
  case True
  then have "publish_new b name (PFloat (free h)) (free h) (snd (new_Float h)) = (Ok a, h1)"
    using assms by (simp add: Bucket_NewFloat_def new_Float_def)
  from publish_new_Ok[OF this] show ?thesis by simp
next
  case False
  then show ?thesis using assms
    by (cases "Bucket_Get b name (snd (new_Float h))")
      (auto simp: Bucket_NewFloat_def Bucket_Get_def Load_def new_Float_def split: option.splits)
qed

lemma Bucket_NewFloat_found:
  assumes "Bucket_vars (buckets h b) name = Some (PFloat a)"
  shows "Bucket_NewFloat b name h = (Ok a, snd (new_Float h))"
  using assms by (simp add: Bucket_NewFloat_def Bucket_Get_def Load_def new_Float_def)

text \<open>
  Claim C8. When \<open>NewInt(name)\<close> has returned a pointer, a second \<open>NewInt(name)\<close> on the same
  bucket returns the same pointer, also after the variable was changed through the first
  one, and the value read through the second is the changed value. The same holds for
  \<open>NewString\<close>, \<open>NewMap\<close> and \<open>NewFloat\<close> (\<open>NewFloat\<close> allocates a spare \<open>Float\<close> on every
  call, which leaves an allocated variable as it is).
\<close>

theorem typed_constructors_idempotent:
  "(Bucket_NewInt b name h = (Ok a, h1) \<longrightarrow>
      Bucket_NewInt b name h1 = (Ok a, h1) \<and>
      fst (Bucket_NewInt b name (Int_Add a d h1)) = Ok a \<and>
      Int_Value a (snd (Bucket_NewInt b name (Int_Add a d h1))) = Int_Value a h1 + d) \<and>
   (Bucket_NewString b name h = (Ok a, h1) \<longrightarrow>
      Bucket_NewString b name h1 = (Ok a, h1) \<and>
      fst (Bucket_NewString b name (String_Set a s h1)) = Ok a \<and>
      String_Value a (snd (Bucket_NewString b name (String_Set a s h1))) = s) \<and>
   (Bucket_NewMap b name h = (Ok a, h1) \<longrightarrow>
      Bucket_NewMap b name h1 = (Ok a, h1) \<and>
      fst (Bucket_NewMap b name (Map_Set a key v h1)) = Ok a \<and>
      Map_Get a key (snd (Bucket_NewMap b name (Map_Set a key v h1))) = v) \<and>
   (Bucket_NewFloat b name h = (Ok a, h1) \<longrightarrow>
      fst (Bucket_NewFloat b name h1) = Ok a \<and>
      fst (Bucket_NewFloat b name (Float_Set a x h1)) = Ok a \<and>
      (a < free h1 \<longrightarrow>
         Float_Value a (snd (Bucket_NewFloat b name (Float_Set a x h1))) = x))"
proof (intro conjI impI)
  assume c: "Bucket_NewInt b name h = (Ok a, h1)"
  note s = Bucket_NewInt_Ok[OF c]
  have s': "Bucket_vars (buckets (Int_Add a d h1) b) name = Some (PInt a)"
    using s by (simp add: Int_Add_def)
  show "Bucket_NewInt b name h1 = (Ok a, h1)" by (rule Bucket_NewInt_found[OF s])
  show "fst (Bucket_NewInt b name (Int_Add a d h1)) = Ok a"
    by (simp add: Bucket_NewInt_found[OF s'])
  show "Int_Value a (snd (Bucket_NewInt b name (Int_Add a d h1))) = Int_Value a h1 + d"
    by (subst Bucket_NewInt_found[OF s']) (simp add: Int_Add_def Int_Value_def)
next
  assume c: "Bucket_NewString b name h = (Ok a, h1)"
  note s = Bucket_NewString_Ok[OF c]
  have s': "Bucket_vars (buckets (String_Set a s h1) b) name = Some (PString a)"
    using s by (simp add: String_Set_def)
  show "Bucket_NewString b name h1 = (Ok a, h1)" by (rule Bucket_NewString_found[OF s])
  show "fst (Bucket_NewString b name (String_Set a s h1)) = Ok a"
    by (simp add: Bucket_NewString_found[OF s'])
  show "String_Value a (snd (Bucket_NewString b name (String_Set a s h1))) = s"
    by (subst Bucket_NewString_found[OF s']) (simp add: String_Set_def String_Value_def)
next
  assume c: "Bucket_NewMap b name h = (Ok a, h1)"
  note s = Bucket_NewMap_Ok[OF c]
  have s': "Bucket_vars (buckets (Map_Set a key v h1) b) name = Some (PMap a)"
    using s by (simp add: Map_Set_effect)
  show "Bucket_NewMap b name h1 = (Ok a, h1)" by (rule Bucket_NewMap_found[OF s])
  show "fst (Bucket_NewMap b name (Map_Set a key v h1)) = Ok a"
    by (simp add: Bucket_NewMap_found[OF s'])
  show "Map_Get a key (snd (Bucket_NewMap b name (Map_Set a key v h1))) = v"
    by (subst Bucket_NewMap_found[OF s'])
      (simp add: Map_Set_effect Map_Get_def Load_def split: option.splits)
next
  assume c: "Bucket_NewFloat b name h = (Ok a, h1)"
  note s = Bucket_NewFloat_Ok[OF c]
  have s': "Bucket_vars (buckets (Float_Set a x h1) b) name = Some (PFloat a)"
    using s by (simp add: Float_Set_def)
  show "fst (Bucket_NewFloat b name h1) = Ok a" by (simp add: Bucket_NewFloat_found[OF s])
  show "fst (Bucket_NewFloat b name (Float_Set a x h1)) = Ok a"
    by (simp add: Bucket_NewFloat_found[OF s'])
  assume "a < free h1"
  then show "Float_Value a (snd (Bucket_NewFloat b name (Float_Set a x h1))) = x"
    by (subst Bucket_NewFloat_found[OF s']) (simp add: Float_Set_def Float_Value_def new_Float_def)
qed

lemma NewX_heap0:
  "Bucket_NewInt 0 ''n'' heap0 = (Ok 0, snd (Bucket_NewInt 0 ''n'' heap0))"
  "Bucket_NewString 0 ''n'' heap0 = (Ok 0, snd (Bucket_NewString 0 ''n'' heap0))"
  "Bucket_NewMap 0 ''n'' heap0 = (Ok 0, snd (Bucket_NewMap 0 ''n'' heap0))"
  "Bucket_NewFloat 0 ''n'' heap0 = (Ok 0, snd (Bucket_NewFloat 0 ''n'' heap0))"
  "0 < free (snd (Bucket_NewFloat 0 ''n'' heap0))"
  "Int_Value 0 (snd (Bucket_NewInt 0 ''n'' heap0)) = 0"
  by (simp_all add: Bucket_NewInt_def Bucket_NewString_def Bucket_NewMap_def Bucket_NewFloat_def
      Bucket_Get_def Load_def heap0_def zero_Bucket_def new_Int_def new_String_def new_Map_def
      new_Float_def publish_new_def Bucket_Publish_def LoadOrStore_def Bucket_store_def Let_def
      Int_Value_def)

theorem typed_constructors_idempotent_witness:
  "fst (Bucket_NewInt 0 ''n'' heap0) = Ok 0 \<and>
   fst (Bucket_NewInt 0 ''n'' (snd (Bucket_NewInt 0 ''n'' heap0))) = Ok 0 \<and>
   Int_Value 0 (snd (Bucket_NewInt 0 ''n'' (Int_Add 0 5 (snd (Bucket_NewInt 0 ''n'' heap0))))) = 5 \<and>
   fst (Bucket_NewString 0 ''n'' (snd (Bucket_NewString 0 ''n'' heap0))) = Ok 0 \<and>
   String_Value 0 (snd (Bucket_NewString 0 ''n''
      (String_Set 0 ''v'' (snd (Bucket_NewString 0 ''n'' heap0))))) = ''v'' \<and>
   fst (Bucket_NewMap 0 ''n'' (snd (Bucket_NewMap 0 ''n'' heap0))) = Ok 0 \<and>
   Map_Get 0 ''k'' (snd (Bucket_NewMap 0 ''n''
      (Map_Set 0 ''k'' (PInt 9) (snd (Bucket_NewMap 0 ''n'' heap0))))) = PInt 9 \<and>
   fst (Bucket_NewFloat 0 ''n'' (snd (Bucket_NewFloat 0 ''n'' heap0))) = Ok 0 \<and>
   Float_Value 0 (snd (Bucket_NewFloat 0 ''n''
      (Float_Set 0 5 (snd (Bucket_NewFloat 0 ''n'' heap0))))) = 5"
proof -
  note T = typed_constructors_idempotent[where b = 0 and name = "''n''" and h = heap0 and a = 0
      and d = 5 and s = "''v''" and key = "''k''" and v = "PInt 9" and x = 5]
  note Ti = T[THEN conjunct1, rule_format, OF NewX_heap0(1)]
  note Ts = T[THEN conjunct2, THEN conjunct1, rule_format, OF NewX_heap0(2)]
  note Tm = T[THEN conjunct2, THEN conjunct2, THEN conjunct1, rule_format, OF NewX_heap0(3)]
  note Tf = T[THEN conjunct2, THEN conjunct2, THEN conjunct2, rule_format, OF NewX_heap0(4)]
  have "fst (Bucket_NewInt 0 ''n'' heap0) = Ok 0"
    by (subst NewX_heap0(1)) simp
  then show ?thesis using Ti Ts Tm Tf NewX_heap0(5,6) by simp
qed

lemma lex_append:
  "lex st (xs @ ys) =
     (case lsteps st xs of
        None \<Rightarrow> None
      | Some (ts, st') \<Rightarrow> (case lex st' ys of None \<Rightarrow> None | Some ts' \<Rightarrow> Some (ts @ ts')))"
proof (induction xs arbitrary: st)
  case Nil
  then show ?case by (simp split: option.splits)
next
  case (Cons c cs)
  show ?case
  proof (cases "lstep st c")
    case None
    then show ?thesis by simp
  next
    case (Some r)
    obtain ts st' where r: "r = (ts, st')" by (cases r)
    show ?thesis using Some r Cons.IH[of st']
      by (simp split: option.splits prod.splits)
  qed
qed

lemma lsteps_append:
  "lsteps st (xs @ ys) =
     (case lsteps st xs of
        None \<Rightarrow> None
      | Some (ts, st') \<Rightarrow>
          (case lsteps st' ys of None \<Rightarrow> None | Some (ts', st'') \<Rightarrow> Some (ts @ ts', st'')))"
proof (induction xs arbitrary: st)
  case Nil
  then show ?case by (simp split: option.splits)
next
  case (Cons c cs)
  show ?case
  proof (cases "lstep st c")
    case None
    then show ?thesis by simp
  next
    case (Some r)
    obtain ts st' where r: "r = (ts, st')" by (cases r)
    show ?thesis using Some r Cons.IH[of st']
      by (simp split: option.splits prod.splits)
  qed
qed

lemma char_consts: "newline \<noteq> dquote" "newline \<noteq> backslash" "dquote \<noteq> backslash"
  "is_ws newline" "(of_char newline :: nat) < 0x20" "\<not> is_digit newline" "\<not> is_exp newline"
  "\<not> is_hex newline" "newline \<noteq> CHR ''.''" "newline \<noteq> CHR ''0''"
  "newline \<noteq> CHR ''u''" "newline \<noteq> CHR ''+''" "newline \<noteq> CHR ''-''" "newline \<notin> set ''/bfnrt''"
  by (simp_all add: newline_def dquote_def backslash_def is_ws_def is_digit_def is_exp_def is_hex_def)

lemma idle_step_lit_ok: "idle_step c = Some (ts, st') \<Longrightarrow> lit_ok st'"
  by (auto simp: idle_step_def lit_ok_def newline_def split: if_splits)

lemma end_number_lit_ok: "end_number c = Some (ts, st') \<Longrightarrow> lit_ok st'"
  by (auto simp: end_number_def dest: idle_step_lit_ok split: option.splits)

lemma lstep_lit_ok: "lit_ok st \<Longrightarrow> lstep st c = Some (ts, st') \<Longrightarrow> lit_ok st'"
  by (cases st)
    (auto simp: lit_ok_def dest: idle_step_lit_ok[unfolded lit_ok_def]
      end_number_lit_ok[unfolded lit_ok_def] split: if_splits list.splits)

lemma lsteps_lit_ok: "lit_ok st \<Longrightarrow> lsteps st xs = Some (ts, st') \<Longrightarrow> lit_ok st'"
proof (induction xs arbitrary: st ts)
  case Nil
  then show ?case by simp
next
  case (Cons c cs)
  then show ?case
    by (auto split: option.splits prod.splits dest: lstep_lit_ok)
qed

lemma lstep_newline: "lit_ok st \<Longrightarrow> lstep st newline = Some (ts, st') \<Longrightarrow> st' = Idle"
  by (cases st)
    (auto simp: lit_ok_def idle_step_def end_number_def newline_def dquote_def backslash_def
      is_ws_def is_digit_def is_exp_def is_hex_def split: if_splits list.splits)

lemma lsteps_newline:
  assumes "lit_ok st" "lsteps st (xs @ [newline]) = Some (ts, st')"
  shows "st' = Idle"
proof -
  from assms(2) obtain ts1 st1 ts2 where a: "lsteps st xs = Some (ts1, st1)"
    and b: "lstep st1 newline = Some (ts2, st')"
    by (auto simp: lsteps_append split: option.splits prod.splits)
  from lsteps_lit_ok[OF assms(1) a] have "lit_ok st1" .
  from lstep_newline[OF this b] show ?thesis .
qed

lemma lsteps_quote_char:
  "lsteps InStr (quote_char c) = None \<or> lsteps InStr (quote_char c) = Some ([], InStr)"
  by (simp add: quote_char_def dquote_def backslash_def hex2_def)

lemma lsteps_quote_body:
  "lsteps InStr (concat (map quote_char s)) = None \<or>
   lsteps InStr (concat (map quote_char s)) = Some ([], InStr)"
proof (induction s)
  case Nil
  then show ?case by simp
next
  case (Cons c s)
  show ?case using lsteps_quote_char[of c] Cons.IH
    by (auto simp: lsteps_append)
qed

lemma lsteps_Quote:
  "lsteps Idle (Quote k) = None \<or> lsteps Idle (Quote k) = Some ([TString], Idle)"
proof -
  have a: "lstep Idle dquote = Some ([], InStr)"
    by (simp add: idle_step_def dquote_def is_ws_def)
  have b: "lsteps InStr [dquote] = Some ([TString], Idle)" by simp
  have "lsteps Idle (Quote k) =
     (case lsteps InStr (concat (map quote_char k) @ [dquote]) of None \<Rightarrow> None
      | Some (ts', st'') \<Rightarrow> Some (ts', st''))"
    unfolding Quote_def using a by (simp del: lstep.simps split: option.splits)
  then show ?thesis using lsteps_quote_body[of k] b
    by (auto simp: lsteps_append simp del: lstep.simps lsteps.simps)
qed

lemma parse_append:
  "parse ps (xs @ ys) = (case parse ps xs of None \<Rightarrow> None | Some ps' \<Rightarrow> parse ps' ys)"
  by (induction xs arbitrary: ps) (simp_all split: option.splits)

lemma pstep_Colon: "pstep ps Colon = Some ps' \<Longrightarrow> fst ps' = PValue"
proof -
  assume a: "pstep ps Colon = Some ps'"
  obtain m st where ps: "ps = (m, st)" by (cases ps)
  show ?thesis using a unfolding ps
    by (cases m) (auto simp: value_step_def split: if_splits list.splits container.splits)
qed

lemma parse_Colon_then:
  assumes "t = Comma \<or> t = RBrace"
  shows "parse ps (xs @ Colon # t # ys) = None"
proof (cases "parse ps xs")
  case None
  then show ?thesis by (simp add: parse_append)
next
  case (Some ps1)
  show ?thesis
  proof (cases "pstep ps1 Colon")
    case None
    then show ?thesis using Some by (simp add: parse_append)
  next
    case s2: (Some ps2)
    obtain st where "ps2 = (PValue, st)" using pstep_Colon[OF s2] by (cases ps2) simp
    then have "pstep ps2 t = None" using assms by (auto simp: value_step_def)
    then show ?thesis using Some s2 by (simp add: parse_append)
  qed
qed

lemma lex_starts:
  assumes "R = [newline, CHR ''}'', newline] \<or> (\<exists>R'. R = CHR '','' # R')"
    and "lex Idle R = Some ts"
  shows "\<exists>t rest. ts = t # rest \<and> (t = Comma \<or> t = RBrace)"
  using assms
  by (auto simp: idle_step_def is_ws_def newline_def dquote_def split: option.splits)

lemma lex_colon_space: "lsteps Idle '': '' = Some ([Colon], Idle)"
  by (simp add: idle_step_def is_ws_def dquote_def)

lemma invalid_after_colon:
  assumes R: "R = [newline, CHR ''}'', newline] \<or> (\<exists>R'. R = CHR '','' # R')"
  shows "\<not> json_valid (P @ [newline] @ Quote k @ '': '' @ R)"
proof
  assume v: "json_valid (P @ [newline] @ Quote k @ '': '' @ R)"
  then obtain ts where ts: "lex Idle (P @ [newline] @ Quote k @ '': '' @ R) = Some ts"
    and p: "parse (PValue, []) ts = Some (PAfter, [])"
    by (auto simp: json_valid_def split: option.splits)
  have e: "P @ [newline] @ Quote k @ '': '' @ R = (P @ [newline]) @ (Quote k @ ('': '' @ R))"
    by simp
  from ts obtain ts0 st0 ts1 where a: "lsteps Idle (P @ [newline]) = Some (ts0, st0)"
    and b: "lex st0 (Quote k @ ('': '' @ R)) = Some ts1" and t01: "ts = ts0 @ ts1"
    unfolding e lex_append[of Idle "P @ [newline]"]
    by (auto split: option.splits prod.splits)
  have "lit_ok Idle" by (simp add: lit_ok_def)
  from lsteps_newline[OF this a] have st0: "st0 = Idle" .
  from b obtain tsq stq ts2 where q: "lsteps Idle (Quote k) = Some (tsq, stq)"
    and c: "lex stq ('': '' @ R) = Some ts2" and t12: "ts1 = tsq @ ts2"
    unfolding st0 lex_append[of Idle "Quote k"]
    by (auto split: option.splits prod.splits)
  from q lsteps_Quote[of k] have tq: "tsq = [TString]" "stq = Idle" by auto
  from c obtain ts3 where d: "lex Idle R = Some ts3" and t23: "ts2 = [Colon] @ ts3"
    unfolding tq lex_append[of Idle "'': ''"] lex_colon_space
    by (auto split: option.splits)
  from lex_starts[OF R d] obtain t rest where r: "ts3 = t # rest" "t = Comma \<or> t = RBrace"
    by blast
  have "ts = (ts0 @ [TString]) @ Colon # t # rest"
    using t01 t12 tq t23 r by simp
  then have "parse (PValue, []) ts = None"
    using parse_Colon_then[OF r(2), of "(PValue, [])" "ts0 @ [TString]" rest] by (simp only:)
  with p show False by simp
qed

lemma Bucket_Do_loop_Ok_nonnil:
  assumes frame: "\<And>kv a. Bucket_vars (buckets (fst (f kv a)) b) = Bucket_vars (buckets (fst a) b)"
  shows "Bucket_Do_loop f b ks hs = (Ok (), hs') \<Longrightarrow> k \<in> set ks \<Longrightarrow>
     Bucket_Get b k (fst hs) \<noteq> VNil"
proof (induction ks arbitrary: hs)
  case Nil
  then show ?case by simp
next
  case (Cons k0 ks)
  have same: "Bucket_Get b k' (fst (f kv a)) = Bucket_Get b k' (fst a)" for k' kv a
    by (simp add: Bucket_Get_def frame)
  from Cons.prems(1) have ne: "Bucket_Get b k0 (fst hs) \<noteq> VNil"
    and rest: "Bucket_Do_loop f b ks (f (k0, Bucket_Get b k0 (fst hs)) hs) = (Ok (), hs')"
    unfolding Bucket_Do_loop_Cons by (auto split: if_splits)
  show ?case
  proof (cases "k = k0")
    case True
    then show ?thesis using ne by simp
  next
    case False
    then have "k \<in> set ks" using Cons.prems(2) by simp
    from Cons.IH[OF rest this] show ?thesis by (simp add: same)
  qed
qed

lemma expvarHandler_visit_heap: "fst (expvarHandler_visit L kv hs) = fst hs"
  by (simp add: expvarHandler_visit_def Let_def split: prod.splits)

lemma visits_expvarHandler:
  "foldl (\<lambda>a kv. expvarHandler_visit L kv a) (h, (w, first)) kvs =
     (h, (w @ handler_entries L h first kvs, first \<and> kvs = []))"
  by (induction kvs arbitrary: w first) (simp_all add: expvarHandler_visit_def Let_def)

lemma handler_entries_append:
  "handler_entries L h first (xs @ kv # ys) =
     handler_entries L h first xs @ (if first \<and> xs = [] then [] else [CHR '','', newline]) @
     Quote (fst kv) @ '': '' @ fmt_s L h (snd kv) @ handler_entries L h False ys"
  by (induction xs arbitrary: first) simp_all

lemma handler_entries_False:
  "handler_entries L h False ys = [] \<and> ys = [] \<or>
   (\<exists>R'. handler_entries L h False ys = CHR '','' # newline # R')"
  by (cases ys) simp_all

lemma expvarHandler_Ok:
  assumes "expvarHandler L h = Ok out"
  shows "out = [CHR ''{'', newline] @
           handler_entries L h True (map (\<lambda>k. (k, Bucket_Get Default k h)) (Bucket_varKeys (buckets h Default))) @
           [newline, CHR ''}'', newline]"
proof -
  let ?f = "expvarHandler_visit L"
  let ?ks = "Bucket_varKeys (buckets h Default)"
  let ?s = "(h, ([CHR ''{'', newline], True))"
  obtain r hs' where d: "Bucket_Do_loop ?f Default ?ks ?s = (r, hs')"
    by (cases "Bucket_Do_loop ?f Default ?ks ?s")
  have r: "r = Ok ()" using assms d
    by (cases r) (auto simp: expvarHandler_def Do_def Bucket_Do_def split: prod.splits)
  have frame: "\<And>kv a. Bucket_vars (buckets (fst (?f kv a)) Default) = Bucket_vars (buckets (fst a) Default)"
    by (simp add: expvarHandler_visit_heap)
  have nn: "\<And>k. k \<in> set ?ks \<Longrightarrow> Bucket_Get Default k (fst ?s) \<noteq> VNil"
    using Bucket_Do_loop_Ok_nonnil[of ?f Default ?ks ?s hs', OF frame] d r by blast
  have "Bucket_Do_loop ?f Default ?ks ?s =
     (Ok (), foldl (\<lambda>a kv. ?f kv a) ?s (map (\<lambda>k. (k, Bucket_Get Default k (fst ?s))) ?ks))"
    by (rule Bucket_Do_loop_total[OF frame nn])
  then show ?thesis using assms
    by (simp add: expvarHandler_def Do_def Bucket_Do_def visits_expvarHandler)
qed

lemma expvarHandler_shape:
  assumes out: "expvarHandler L h = Ok out"
    and k: "k \<in> set (Bucket_varKeys (buckets h Default))"
    and e: "fmt_s L h (Bucket_Get Default k h) = []"
  shows "\<exists>P R. out = P @ [newline] @ Quote k @ '': '' @ R \<and>
     (R = [newline, CHR ''}'', newline] \<or> (\<exists>R'. R = CHR '','' # newline # R'))"
proof -
  let ?kv = "\<lambda>k. (k, Bucket_Get Default k h)"
  from k obtain xs ys where s: "Bucket_varKeys (buckets h Default) = xs @ k # ys"
    by (auto simp: in_set_conv_decomp)
  let ?pre = "handler_entries L h True (map ?kv xs)"
  let ?post = "handler_entries L h False (map ?kv ys)"
  have o: "out = [CHR ''{'', newline] @ ?pre @ (if xs = [] then [] else [CHR '','', newline]) @
      Quote k @ '': '' @ ?post @ [newline, CHR ''}'', newline]"
    using expvarHandler_Ok[OF out] e by (simp add: s handler_entries_append)
  define P where "P = (if xs = [] then [CHR ''{''] else [CHR ''{'', newline] @ ?pre @ [CHR '','']) "
  define R where "R = ?post @ [newline, CHR ''}'', newline]"
  have 1: "out = P @ [newline] @ Quote k @ '': '' @ R"
    unfolding P_def R_def o by (cases "xs = []") simp_all
  have 2: "R = [newline, CHR ''}'', newline] \<or> (\<exists>R'. R = CHR '','' # newline # R')"
    unfolding R_def using handler_entries_False[of L h "map ?kv ys"] by auto
  show ?thesis using 1 2 by blast
qed

lemma Func_String_empty: "json_Marshal (Func_Value g) = None \<Longrightarrow> Func_String g = []"
  by (simp add: Func_String_def)

text \<open>
  Claim C9. For a \<^verbatim>\<open>Func\<close> whose value \<^verbatim>\<open>json.Marshal\<close> cannot encode, \<open>String\<close> returns the
  empty string. When such a \<^verbatim>\<open>Func\<close> is published in the package's bucket and the handler
  renders it, the output has the quoted key, the colon and the space, and directly after
  them the separator of the next entry or the closing line; and the output is not
  well-formed JSON, whatever else the bucket holds.
\<close>

theorem Func_marshal_error_breaks_rendering:
  "(json_Marshal (Func_Value g) = None \<longrightarrow> Func_String g = []) \<and>
   (json_Marshal (Func_Value g) = None \<and> k \<in> set (Bucket_varKeys (buckets h Default)) \<and>
    Get k h = VFunc g \<and> expvarHandler L h = Ok out \<longrightarrow>
      (\<exists>P R. out = P @ Quote k @ '': '' @ R \<and>
             (R = [newline, CHR ''}'', newline] \<or> take 2 R = [CHR '','', newline])) \<and>
      \<not> json_valid out)"
proof (intro conjI impI)
  assume "json_Marshal (Func_Value g) = None"
  then show "Func_String g = []" by (rule Func_String_empty)
next
  assume a: "json_Marshal (Func_Value g) = None \<and> k \<in> set (Bucket_varKeys (buckets h Default)) \<and>
    Get k h = VFunc g \<and> expvarHandler L h = Ok out"
  then have e: "fmt_s L h (Bucket_Get Default k h) = []"
    by (simp add: Get_def fmt_s_def Var_String_def Func_String_empty)
  from expvarHandler_shape[OF _ _ e] a obtain P R where
    o: "out = P @ [newline] @ Quote k @ '': '' @ R"
    and R: "R = [newline, CHR ''}'', newline] \<or> (\<exists>R'. R = CHR '','' # newline # R')" by blast
  from R have R': "R = [newline, CHR ''}'', newline] \<or> (\<exists>R'. R = CHR '','' # R')" by blast
  show "\<not> json_valid out" unfolding o by (rule invalid_after_colon[OF R'])
  have "out = (P @ [newline]) @ Quote k @ '': '' @ R" using o by simp
  moreover have "R = [newline, CHR ''}'', newline] \<or> take 2 R = [CHR '','', newline]"
    using R by auto
  ultimately show "\<exists>P R. out = P @ Quote k @ '': '' @ R \<and>
             (R = [newline, CHR ''}'', newline] \<or> take 2 R = [CHR '','', newline])"
    by blast
qed

lemma hF_render:
  "json_Marshal (Func_Value GoChan) = None"
  "''bad'' \<in> set (Bucket_varKeys (buckets hF Default))"
  "Get ''bad'' hF = VFunc GoChan"
  "expvarHandler lib0 hF =
     Ok [CHR ''{'', CHR 0x0A, CHR 0x22, CHR ''b'', CHR ''a'', CHR ''d'', CHR 0x22, CHR '':'', CHR '' '',
         CHR '','', CHR 0x0A, CHR 0x22, CHR ''n'', CHR 0x22, CHR '':'', CHR '' '', CHR ''0'',
         CHR 0x0A, CHR ''}'', CHR 0x0A]"
  by code_simp+

theorem Func_marshal_error_breaks_rendering_witness:
  "json_Marshal (Func_Value GoChan) = None \<and> Func_String GoChan = [] \<and>
   ''bad'' \<in> set (Bucket_varKeys (buckets hF Default)) \<and> Get ''bad'' hF = VFunc GoChan \<and>
   expvarHandler lib0 hF =
     Ok [CHR ''{'', CHR 0x0A, CHR 0x22, CHR ''b'', CHR ''a'', CHR ''d'', CHR 0x22, CHR '':'', CHR '' '',
         CHR '','', CHR 0x0A, CHR 0x22, CHR ''n'', CHR 0x22, CHR '':'', CHR '' '', CHR ''0'',
         CHR 0x0A, CHR ''}'', CHR 0x0A] \<and>
   \<not> json_valid
     [CHR ''{'', CHR 0x0A, CHR 0x22, CHR ''b'', CHR ''a'', CHR ''d'', CHR 0x22, CHR '':'', CHR '' '',
      CHR '','', CHR 0x0A, CHR 0x22, CHR ''n'', CHR 0x22, CHR '':'', CHR '' '', CHR ''0'',
      CHR 0x0A, CHR ''}'', CHR 0x0A]"
proof -
  note T = Func_marshal_error_breaks_rendering[of GoChan "''bad''" hF lib0]
  have a: "Func_String GoChan = []"
    using T[THEN conjunct1, rule_format, OF hF_render(1)] .
  have "json_Marshal (Func_Value GoChan) = None \<and> ''bad'' \<in> set (Bucket_varKeys (buckets hF Default)) \<and>
    Get ''bad'' hF = VFunc GoChan \<and> expvarHandler lib0 hF =
     Ok [CHR ''{'', CHR 0x0A, CHR 0x22, CHR ''b'', CHR ''a'', CHR ''d'', CHR 0x22, CHR '':'', CHR '' '',
         CHR '','', CHR 0x0A, CHR 0x22, CHR ''n'', CHR 0x22, CHR '':'', CHR '' '', CHR ''0'',
         CHR 0x0A, CHR ''}'', CHR 0x0A]"
    using hF_render by blast
  from T[THEN conjunct2, rule_format, OF this] a hF_render show ?thesis by blast
qed

text \<open>
  Claim C10. A \<open>String\<close> whose value was never stored (as it is right after \<^verbatim>\<open>new(String)\<close>)
  has the value \<^verbatim>\<open>""\<close> (the empty string), and its \<open>String\<close> method returns the two
  characters \<^verbatim>\<open>""\<close>, which is well-formed JSON.
\<close>

theorem fresh_String_is_empty:
  "(strings h p = None \<longrightarrow>
      String_Value p h = [] \<and> String_String p h = [CHR 0x22, CHR 0x22] \<and>
      length (String_String p h) = 2 \<and> json_valid (String_String p h)) \<and>
   strings (snd (new_String h)) (fst (new_String h)) = None"
  by (simp add: new_String_def String_Value_def String_String_def json_string_def dquote_def
      json_valid_def idle_step_def is_ws_def value_step_def)

theorem fresh_String_is_empty_witness:
  "strings (snd (new_String heap0)) (fst (new_String heap0)) = None \<and>
   String_Value (fst (new_String heap0)) (snd (new_String heap0)) = [] \<and>
   String_String (fst (new_String heap0)) (snd (new_String heap0)) = [CHR 0x22, CHR 0x22] \<and>
   json_valid (String_String (fst (new_String heap0)) (snd (new_String heap0)))"
proof -
  have c: "strings (snd (new_String heap0)) (fst (new_String heap0)) = None"
    using fresh_String_is_empty[of heap0 0] by (rule conjunct2)
  note T = fresh_String_is_empty[of "snd (new_String heap0)" "fst (new_String heap0)",
      THEN conjunct1, rule_format, OF c]
  show ?thesis using c T by blast
qed

end
